theory Spec2Isabelle
  imports Main "HOL-Library.Sublist" "HOL-Library.Char_ord" "HOL-Library.List_Lexorder"
begin

section \<open>Strings\<close>

text \<open>
  A JavaScript string is a sequence of 16-bit code units, and the model has two
  views of it. The context matcher lower-cases its text with \<open>toLowerCase\<close>, whose
  result depends on the characters around a code unit and can be longer than its
  argument as soon as code units above 255 occur: the strings of the matcher are lists
  of code units, and \<open>toLowerCase\<close> is modelled on every such list. Every other function
  is modelled on \<^typ>\<open>string\<close>: a \<^typ>\<open>char\<close> is a code unit in the range 0..255 (the Latin-1
  block, where one code unit is one character), and each definition gives the result
  JavaScript gives on such strings.
\<close>

definition isSpace :: "char \<Rightarrow> bool" where
  \<comment> \<open>The regular expression class \<open>\s\<close>, which is also the set removed by \<open>trim\<close>:
      TAB, LF, VT, FF, CR, SPACE and NO-BREAK SPACE are its members below 256.\<close>
  "isSpace c \<longleftrightarrow> c \<in> set [CHR 0x09, CHR 0x0A, CHR 0x0B, CHR 0x0C, CHR 0x0D, CHR 0x20, CHR 0xA0]"

fun includes_str :: "'a list \<Rightarrow> 'a list \<Rightarrow> bool" where
  \<comment> \<open>\<open>s.includes(t)\<close>: \<open>t\<close> occurs in \<open>s\<close> at some position (the empty \<open>t\<close> at position 0).\<close>
  "includes_str [] t = (t = [])"
| "includes_str (c # cs) t = (prefix t (c # cs) \<or> includes_str cs t)"

function split_on :: "'a \<Rightarrow> 'a list \<Rightarrow> 'a list list" where
  \<comment> \<open>\<open>s.split(c)\<close> for a one-character separator; the empty string gives one empty piece.\<close>
  "split_on c s =
     (case dropWhile (\<lambda>x. x \<noteq> c) s of
        [] \<Rightarrow> [takeWhile (\<lambda>x. x \<noteq> c) s]
      | _ # r \<Rightarrow> takeWhile (\<lambda>x. x \<noteq> c) s # split_on c r)"
  by pat_completeness auto
termination
proof (relation "measure (\<lambda>(c, s). length s)")
  fix c :: 'a and s x r
  assume "dropWhile (\<lambda>x. x \<noteq> c) s = x # r"
  then have "length (x # r) \<le> length s"
    by (metis length_dropWhile_le)
  then show "((c, r), (c, s)) \<in> measure (\<lambda>(c, s). length s)"
    by simp
qed simp

definition slice :: "'a list \<Rightarrow> int \<Rightarrow> int \<Rightarrow> 'a list" where
  \<comment> \<open>\<open>xs.slice(s, e)\<close>: a negative index counts from the end, both are clamped to the
      array, and an empty range gives the empty array.\<close>
  "slice xs s e =
     (let len = int (length xs);
          from = (if s < 0 then max (len + s) 0 else min s len);
          to = (if e < 0 then max (len + e) 0 else min e len)
      in take (nat (to - from)) (drop (nat from) xs))"

section \<open>Lower-casing\<close>

text \<open>
  \<open>String.prototype.toLowerCase\<close> reads the string as code points, maps them with the
  operation \<open>toLowercase\<close> of the Unicode Default Case Conversion, and writes the result
  back as code units. The conversion takes no language into account: a code point maps
  by its simple lower-case mapping, but for the two entries of \<open>SpecialCasing.txt\<close> that
  hold for every language: \<open>U+0130\<close> gives the two code points \<open>U+0069 U+0307\<close>, and
  \<open>U+03A3\<close> gives the final sigma \<open>U+03C2\<close> in the context \<open>Final_Sigma\<close> and \<open>U+03C3\<close>
  everywhere else. The three tables are those of the Unicode Character Database 14.0.
\<close>

type_synonym codeUnit = int

definition codeUnitsOf :: "string \<Rightarrow> codeUnit list" where
  \<comment> \<open>The JavaScript string of a literal whose characters are all below 256.\<close>
  "codeUnitsOf s = map of_char s"

definition lowercaseRuns :: "(int \<times> int \<times> int \<times> int) list" where
  \<comment> \<open>The simple lower-case mappings of \<open>UnicodeData.txt\<close>, as runs \<open>(lo, hi, step, lower)\<close>:
      the code points \<open>lo, lo + step, \<dots>, hi\<close> map to \<open>lower, lower + step, \<dots>\<close>. The
      two code points with a mapping in \<open>SpecialCasing.txt\<close>, \<open>U+0130\<close> and \<open>U+03A3\<close>, are
      not in the table.\<close>
  "lowercaseRuns =
    [(0x41, 0x5A, 1, 0x61), (0xC0, 0xD6, 1, 0xE0), (0xD8, 0xDE, 1, 0xF8),
     (0x100, 0x12E, 2, 0x101), (0x132, 0x136, 2, 0x133), (0x139, 0x147, 2, 0x13A),
     (0x14A, 0x176, 2, 0x14B), (0x178, 0x178, 1, 0xFF), (0x179, 0x17D, 2, 0x17A),
     (0x181, 0x181, 1, 0x253), (0x182, 0x184, 2, 0x183), (0x186, 0x186, 1, 0x254),
     (0x187, 0x187, 1, 0x188), (0x189, 0x18A, 1, 0x256), (0x18B, 0x18B, 1, 0x18C),
     (0x18E, 0x18E, 1, 0x1DD), (0x18F, 0x18F, 1, 0x259), (0x190, 0x190, 1, 0x25B),
     (0x191, 0x191, 1, 0x192), (0x193, 0x193, 1, 0x260), (0x194, 0x194, 1, 0x263),
     (0x196, 0x196, 1, 0x269), (0x197, 0x197, 1, 0x268), (0x198, 0x198, 1, 0x199),
     (0x19C, 0x19C, 1, 0x26F), (0x19D, 0x19D, 1, 0x272), (0x19F, 0x19F, 1, 0x275),
     (0x1A0, 0x1A4, 2, 0x1A1), (0x1A6, 0x1A6, 1, 0x280), (0x1A7, 0x1A7, 1, 0x1A8),
     (0x1A9, 0x1A9, 1, 0x283), (0x1AC, 0x1AC, 1, 0x1AD), (0x1AE, 0x1AE, 1, 0x288),
     (0x1AF, 0x1AF, 1, 0x1B0), (0x1B1, 0x1B2, 1, 0x28A), (0x1B3, 0x1B5, 2, 0x1B4),
     (0x1B7, 0x1B7, 1, 0x292), (0x1B8, 0x1B8, 1, 0x1B9), (0x1BC, 0x1BC, 1, 0x1BD),
     (0x1C4, 0x1C4, 1, 0x1C6), (0x1C5, 0x1C5, 1, 0x1C6), (0x1C7, 0x1C7, 1, 0x1C9),
     (0x1C8, 0x1C8, 1, 0x1C9), (0x1CA, 0x1CA, 1, 0x1CC), (0x1CB, 0x1DB, 2, 0x1CC),
     (0x1DE, 0x1EE, 2, 0x1DF), (0x1F1, 0x1F1, 1, 0x1F3), (0x1F2, 0x1F4, 2, 0x1F3),
     (0x1F6, 0x1F6, 1, 0x195), (0x1F7, 0x1F7, 1, 0x1BF), (0x1F8, 0x21E, 2, 0x1F9),
     (0x220, 0x220, 1, 0x19E), (0x222, 0x232, 2, 0x223), (0x23A, 0x23A, 1, 0x2C65),
     (0x23B, 0x23B, 1, 0x23C), (0x23D, 0x23D, 1, 0x19A), (0x23E, 0x23E, 1, 0x2C66),
     (0x241, 0x241, 1, 0x242), (0x243, 0x243, 1, 0x180), (0x244, 0x244, 1, 0x289),
     (0x245, 0x245, 1, 0x28C), (0x246, 0x24E, 2, 0x247), (0x370, 0x372, 2, 0x371),
     (0x376, 0x376, 1, 0x377), (0x37F, 0x37F, 1, 0x3F3), (0x386, 0x386, 1, 0x3AC),
     (0x388, 0x38A, 1, 0x3AD), (0x38C, 0x38C, 1, 0x3CC), (0x38E, 0x38F, 1, 0x3CD),
     (0x391, 0x3A1, 1, 0x3B1), (0x3A4, 0x3AB, 1, 0x3C4), (0x3CF, 0x3CF, 1, 0x3D7),
     (0x3D8, 0x3EE, 2, 0x3D9), (0x3F4, 0x3F4, 1, 0x3B8), (0x3F7, 0x3F7, 1, 0x3F8),
     (0x3F9, 0x3F9, 1, 0x3F2), (0x3FA, 0x3FA, 1, 0x3FB), (0x3FD, 0x3FF, 1, 0x37B),
     (0x400, 0x40F, 1, 0x450), (0x410, 0x42F, 1, 0x430), (0x460, 0x480, 2, 0x461),
     (0x48A, 0x4BE, 2, 0x48B), (0x4C0, 0x4C0, 1, 0x4CF), (0x4C1, 0x4CD, 2, 0x4C2),
     (0x4D0, 0x52E, 2, 0x4D1), (0x531, 0x556, 1, 0x561), (0x10A0, 0x10C5, 1, 0x2D00),
     (0x10C7, 0x10C7, 1, 0x2D27), (0x10CD, 0x10CD, 1, 0x2D2D), (0x13A0, 0x13EF, 1, 0xAB70),
     (0x13F0, 0x13F5, 1, 0x13F8), (0x1C90, 0x1CBA, 1, 0x10D0), (0x1CBD, 0x1CBF, 1, 0x10FD),
     (0x1E00, 0x1E94, 2, 0x1E01), (0x1E9E, 0x1E9E, 1, 0xDF), (0x1EA0, 0x1EFE, 2, 0x1EA1),
     (0x1F08, 0x1F0F, 1, 0x1F00), (0x1F18, 0x1F1D, 1, 0x1F10), (0x1F28, 0x1F2F, 1, 0x1F20),
     (0x1F38, 0x1F3F, 1, 0x1F30), (0x1F48, 0x1F4D, 1, 0x1F40), (0x1F59, 0x1F5F, 2, 0x1F51),
     (0x1F68, 0x1F6F, 1, 0x1F60), (0x1F88, 0x1F8F, 1, 0x1F80), (0x1F98, 0x1F9F, 1, 0x1F90),
     (0x1FA8, 0x1FAF, 1, 0x1FA0), (0x1FB8, 0x1FB9, 1, 0x1FB0), (0x1FBA, 0x1FBB, 1, 0x1F70),
     (0x1FBC, 0x1FBC, 1, 0x1FB3), (0x1FC8, 0x1FCB, 1, 0x1F72), (0x1FCC, 0x1FCC, 1, 0x1FC3),
     (0x1FD8, 0x1FD9, 1, 0x1FD0), (0x1FDA, 0x1FDB, 1, 0x1F76), (0x1FE8, 0x1FE9, 1, 0x1FE0),
     (0x1FEA, 0x1FEB, 1, 0x1F7A), (0x1FEC, 0x1FEC, 1, 0x1FE5), (0x1FF8, 0x1FF9, 1, 0x1F78),
     (0x1FFA, 0x1FFB, 1, 0x1F7C), (0x1FFC, 0x1FFC, 1, 0x1FF3), (0x2126, 0x2126, 1, 0x3C9),
     (0x212A, 0x212A, 1, 0x6B), (0x212B, 0x212B, 1, 0xE5), (0x2132, 0x2132, 1, 0x214E),
     (0x2160, 0x216F, 1, 0x2170), (0x2183, 0x2183, 1, 0x2184), (0x24B6, 0x24CF, 1, 0x24D0),
     (0x2C00, 0x2C2F, 1, 0x2C30), (0x2C60, 0x2C60, 1, 0x2C61), (0x2C62, 0x2C62, 1, 0x26B),
     (0x2C63, 0x2C63, 1, 0x1D7D), (0x2C64, 0x2C64, 1, 0x27D), (0x2C67, 0x2C6B, 2, 0x2C68),
     (0x2C6D, 0x2C6D, 1, 0x251), (0x2C6E, 0x2C6E, 1, 0x271), (0x2C6F, 0x2C6F, 1, 0x250),
     (0x2C70, 0x2C70, 1, 0x252), (0x2C72, 0x2C72, 1, 0x2C73), (0x2C75, 0x2C75, 1, 0x2C76),
     (0x2C7E, 0x2C7F, 1, 0x23F), (0x2C80, 0x2CE2, 2, 0x2C81), (0x2CEB, 0x2CED, 2, 0x2CEC),
     (0x2CF2, 0x2CF2, 1, 0x2CF3), (0xA640, 0xA66C, 2, 0xA641), (0xA680, 0xA69A, 2, 0xA681),
     (0xA722, 0xA72E, 2, 0xA723), (0xA732, 0xA76E, 2, 0xA733), (0xA779, 0xA77B, 2, 0xA77A),
     (0xA77D, 0xA77D, 1, 0x1D79), (0xA77E, 0xA786, 2, 0xA77F), (0xA78B, 0xA78B, 1, 0xA78C),
     (0xA78D, 0xA78D, 1, 0x265), (0xA790, 0xA792, 2, 0xA791), (0xA796, 0xA7A8, 2, 0xA797),
     (0xA7AA, 0xA7AA, 1, 0x266), (0xA7AB, 0xA7AB, 1, 0x25C), (0xA7AC, 0xA7AC, 1, 0x261),
     (0xA7AD, 0xA7AD, 1, 0x26C), (0xA7AE, 0xA7AE, 1, 0x26A), (0xA7B0, 0xA7B0, 1, 0x29E),
     (0xA7B1, 0xA7B1, 1, 0x287), (0xA7B2, 0xA7B2, 1, 0x29D), (0xA7B3, 0xA7B3, 1, 0xAB53),
     (0xA7B4, 0xA7C2, 2, 0xA7B5), (0xA7C4, 0xA7C4, 1, 0xA794), (0xA7C5, 0xA7C5, 1, 0x282),
     (0xA7C6, 0xA7C6, 1, 0x1D8E), (0xA7C7, 0xA7C9, 2, 0xA7C8), (0xA7D0, 0xA7D0, 1, 0xA7D1),
     (0xA7D6, 0xA7D8, 2, 0xA7D7), (0xA7F5, 0xA7F5, 1, 0xA7F6), (0xFF21, 0xFF3A, 1, 0xFF41),
     (0x10400, 0x10427, 1, 0x10428), (0x104B0, 0x104D3, 1, 0x104D8),
     (0x10570, 0x1057A, 1, 0x10597), (0x1057C, 0x1058A, 1, 0x105A3),
     (0x1058C, 0x10592, 1, 0x105B3), (0x10594, 0x10595, 1, 0x105BB),
     (0x10C80, 0x10CB2, 1, 0x10CC0), (0x118A0, 0x118BF, 1, 0x118C0),
     (0x16E40, 0x16E5F, 1, 0x16E60), (0x1E900, 0x1E921, 1, 0x1E922)]"

definition caseIgnorableRanges :: "(int \<times> int) list" where
  \<comment> \<open>The property \<open>Case_Ignorable\<close> of \<open>DerivedCoreProperties.txt\<close>, as ranges.\<close>
  "caseIgnorableRanges =
    [(0x27, 0x27), (0x2E, 0x2E), (0x3A, 0x3A), (0x5E, 0x5E), (0x60, 0x60), (0xA8, 0xA8),
     (0xAD, 0xAD), (0xAF, 0xAF), (0xB4, 0xB4), (0xB7, 0xB8), (0x2B0, 0x36F), (0x374, 0x375),
     (0x37A, 0x37A), (0x384, 0x385), (0x387, 0x387), (0x483, 0x489), (0x559, 0x559),
     (0x55F, 0x55F), (0x591, 0x5BD), (0x5BF, 0x5BF), (0x5C1, 0x5C2), (0x5C4, 0x5C5),
     (0x5C7, 0x5C7), (0x5F4, 0x5F4), (0x600, 0x605), (0x610, 0x61A), (0x61C, 0x61C),
     (0x640, 0x640), (0x64B, 0x65F), (0x670, 0x670), (0x6D6, 0x6DD), (0x6DF, 0x6E8),
     (0x6EA, 0x6ED), (0x70F, 0x70F), (0x711, 0x711), (0x730, 0x74A), (0x7A6, 0x7B0),
     (0x7EB, 0x7F5), (0x7FA, 0x7FA), (0x7FD, 0x7FD), (0x816, 0x82D), (0x859, 0x85B),
     (0x888, 0x888), (0x890, 0x891), (0x898, 0x89F), (0x8C9, 0x902), (0x93A, 0x93A),
     (0x93C, 0x93C), (0x941, 0x948), (0x94D, 0x94D), (0x951, 0x957), (0x962, 0x963),
     (0x971, 0x971), (0x981, 0x981), (0x9BC, 0x9BC), (0x9C1, 0x9C4), (0x9CD, 0x9CD),
     (0x9E2, 0x9E3), (0x9FE, 0x9FE), (0xA01, 0xA02), (0xA3C, 0xA3C), (0xA41, 0xA42),
     (0xA47, 0xA48), (0xA4B, 0xA4D), (0xA51, 0xA51), (0xA70, 0xA71), (0xA75, 0xA75),
     (0xA81, 0xA82), (0xABC, 0xABC), (0xAC1, 0xAC5), (0xAC7, 0xAC8), (0xACD, 0xACD),
     (0xAE2, 0xAE3), (0xAFA, 0xAFF), (0xB01, 0xB01), (0xB3C, 0xB3C), (0xB3F, 0xB3F),
     (0xB41, 0xB44), (0xB4D, 0xB4D), (0xB55, 0xB56), (0xB62, 0xB63), (0xB82, 0xB82),
     (0xBC0, 0xBC0), (0xBCD, 0xBCD), (0xC00, 0xC00), (0xC04, 0xC04), (0xC3C, 0xC3C),
     (0xC3E, 0xC40), (0xC46, 0xC48), (0xC4A, 0xC4D), (0xC55, 0xC56), (0xC62, 0xC63),
     (0xC81, 0xC81), (0xCBC, 0xCBC), (0xCBF, 0xCBF), (0xCC6, 0xCC6), (0xCCC, 0xCCD),
     (0xCE2, 0xCE3), (0xD00, 0xD01), (0xD3B, 0xD3C), (0xD41, 0xD44), (0xD4D, 0xD4D),
     (0xD62, 0xD63), (0xD81, 0xD81), (0xDCA, 0xDCA), (0xDD2, 0xDD4), (0xDD6, 0xDD6),
     (0xE31, 0xE31), (0xE34, 0xE3A), (0xE46, 0xE4E), (0xEB1, 0xEB1), (0xEB4, 0xEBC),
     (0xEC6, 0xEC6), (0xEC8, 0xECD), (0xF18, 0xF19), (0xF35, 0xF35), (0xF37, 0xF37),
     (0xF39, 0xF39), (0xF71, 0xF7E), (0xF80, 0xF84), (0xF86, 0xF87), (0xF8D, 0xF97),
     (0xF99, 0xFBC), (0xFC6, 0xFC6), (0x102D, 0x1030), (0x1032, 0x1037), (0x1039, 0x103A),
     (0x103D, 0x103E), (0x1058, 0x1059), (0x105E, 0x1060), (0x1071, 0x1074), (0x1082, 0x1082),
     (0x1085, 0x1086), (0x108D, 0x108D), (0x109D, 0x109D), (0x10FC, 0x10FC), (0x135D, 0x135F),
     (0x1712, 0x1714), (0x1732, 0x1733), (0x1752, 0x1753), (0x1772, 0x1773), (0x17B4, 0x17B5),
     (0x17B7, 0x17BD), (0x17C6, 0x17C6), (0x17C9, 0x17D3), (0x17D7, 0x17D7), (0x17DD, 0x17DD),
     (0x180B, 0x180F), (0x1843, 0x1843), (0x1885, 0x1886), (0x18A9, 0x18A9), (0x1920, 0x1922),
     (0x1927, 0x1928), (0x1932, 0x1932), (0x1939, 0x193B), (0x1A17, 0x1A18), (0x1A1B, 0x1A1B),
     (0x1A56, 0x1A56), (0x1A58, 0x1A5E), (0x1A60, 0x1A60), (0x1A62, 0x1A62), (0x1A65, 0x1A6C),
     (0x1A73, 0x1A7C), (0x1A7F, 0x1A7F), (0x1AA7, 0x1AA7), (0x1AB0, 0x1ACE), (0x1B00, 0x1B03),
     (0x1B34, 0x1B34), (0x1B36, 0x1B3A), (0x1B3C, 0x1B3C), (0x1B42, 0x1B42), (0x1B6B, 0x1B73),
     (0x1B80, 0x1B81), (0x1BA2, 0x1BA5), (0x1BA8, 0x1BA9), (0x1BAB, 0x1BAD), (0x1BE6, 0x1BE6),
     (0x1BE8, 0x1BE9), (0x1BED, 0x1BED), (0x1BEF, 0x1BF1), (0x1C2C, 0x1C33), (0x1C36, 0x1C37),
     (0x1C78, 0x1C7D), (0x1CD0, 0x1CD2), (0x1CD4, 0x1CE0), (0x1CE2, 0x1CE8), (0x1CED, 0x1CED),
     (0x1CF4, 0x1CF4), (0x1CF8, 0x1CF9), (0x1D2C, 0x1D6A), (0x1D78, 0x1D78), (0x1D9B, 0x1DFF),
     (0x1FBD, 0x1FBD), (0x1FBF, 0x1FC1), (0x1FCD, 0x1FCF), (0x1FDD, 0x1FDF), (0x1FED, 0x1FEF),
     (0x1FFD, 0x1FFE), (0x200B, 0x200F), (0x2018, 0x2019), (0x2024, 0x2024), (0x2027, 0x2027),
     (0x202A, 0x202E), (0x2060, 0x2064), (0x2066, 0x206F), (0x2071, 0x2071), (0x207F, 0x207F),
     (0x2090, 0x209C), (0x20D0, 0x20F0), (0x2C7C, 0x2C7D), (0x2CEF, 0x2CF1), (0x2D6F, 0x2D6F),
     (0x2D7F, 0x2D7F), (0x2DE0, 0x2DFF), (0x2E2F, 0x2E2F), (0x3005, 0x3005), (0x302A, 0x302D),
     (0x3031, 0x3035), (0x303B, 0x303B), (0x3099, 0x309E), (0x30FC, 0x30FE), (0xA015, 0xA015),
     (0xA4F8, 0xA4FD), (0xA60C, 0xA60C), (0xA66F, 0xA672), (0xA674, 0xA67D), (0xA67F, 0xA67F),
     (0xA69C, 0xA69F), (0xA6F0, 0xA6F1), (0xA700, 0xA721), (0xA770, 0xA770), (0xA788, 0xA78A),
     (0xA7F2, 0xA7F4), (0xA7F8, 0xA7F9), (0xA802, 0xA802), (0xA806, 0xA806), (0xA80B, 0xA80B),
     (0xA825, 0xA826), (0xA82C, 0xA82C), (0xA8C4, 0xA8C5), (0xA8E0, 0xA8F1), (0xA8FF, 0xA8FF),
     (0xA926, 0xA92D), (0xA947, 0xA951), (0xA980, 0xA982), (0xA9B3, 0xA9B3), (0xA9B6, 0xA9B9),
     (0xA9BC, 0xA9BD), (0xA9CF, 0xA9CF), (0xA9E5, 0xA9E6), (0xAA29, 0xAA2E), (0xAA31, 0xAA32),
     (0xAA35, 0xAA36), (0xAA43, 0xAA43), (0xAA4C, 0xAA4C), (0xAA70, 0xAA70), (0xAA7C, 0xAA7C),
     (0xAAB0, 0xAAB0), (0xAAB2, 0xAAB4), (0xAAB7, 0xAAB8), (0xAABE, 0xAABF), (0xAAC1, 0xAAC1),
     (0xAADD, 0xAADD), (0xAAEC, 0xAAED), (0xAAF3, 0xAAF4), (0xAAF6, 0xAAF6), (0xAB5B, 0xAB5F),
     (0xAB69, 0xAB6B), (0xABE5, 0xABE5), (0xABE8, 0xABE8), (0xABED, 0xABED), (0xFB1E, 0xFB1E),
     (0xFBB2, 0xFBC2), (0xFE00, 0xFE0F), (0xFE13, 0xFE13), (0xFE20, 0xFE2F), (0xFE52, 0xFE52),
     (0xFE55, 0xFE55), (0xFEFF, 0xFEFF), (0xFF07, 0xFF07), (0xFF0E, 0xFF0E), (0xFF1A, 0xFF1A),
     (0xFF3E, 0xFF3E), (0xFF40, 0xFF40), (0xFF70, 0xFF70), (0xFF9E, 0xFF9F), (0xFFE3, 0xFFE3),
     (0xFFF9, 0xFFFB), (0x101FD, 0x101FD), (0x102E0, 0x102E0), (0x10376, 0x1037A),
     (0x10780, 0x10785), (0x10787, 0x107B0), (0x107B2, 0x107BA), (0x10A01, 0x10A03),
     (0x10A05, 0x10A06), (0x10A0C, 0x10A0F), (0x10A38, 0x10A3A), (0x10A3F, 0x10A3F),
     (0x10AE5, 0x10AE6), (0x10D24, 0x10D27), (0x10EAB, 0x10EAC), (0x10F46, 0x10F50),
     (0x10F82, 0x10F85), (0x11001, 0x11001), (0x11038, 0x11046), (0x11070, 0x11070),
     (0x11073, 0x11074), (0x1107F, 0x11081), (0x110B3, 0x110B6), (0x110B9, 0x110BA),
     (0x110BD, 0x110BD), (0x110C2, 0x110C2), (0x110CD, 0x110CD), (0x11100, 0x11102),
     (0x11127, 0x1112B), (0x1112D, 0x11134), (0x11173, 0x11173), (0x11180, 0x11181),
     (0x111B6, 0x111BE), (0x111C9, 0x111CC), (0x111CF, 0x111CF), (0x1122F, 0x11231),
     (0x11234, 0x11234), (0x11236, 0x11237), (0x1123E, 0x1123E), (0x112DF, 0x112DF),
     (0x112E3, 0x112EA), (0x11300, 0x11301), (0x1133B, 0x1133C), (0x11340, 0x11340),
     (0x11366, 0x1136C), (0x11370, 0x11374), (0x11438, 0x1143F), (0x11442, 0x11444),
     (0x11446, 0x11446), (0x1145E, 0x1145E), (0x114B3, 0x114B8), (0x114BA, 0x114BA),
     (0x114BF, 0x114C0), (0x114C2, 0x114C3), (0x115B2, 0x115B5), (0x115BC, 0x115BD),
     (0x115BF, 0x115C0), (0x115DC, 0x115DD), (0x11633, 0x1163A), (0x1163D, 0x1163D),
     (0x1163F, 0x11640), (0x116AB, 0x116AB), (0x116AD, 0x116AD), (0x116B0, 0x116B5),
     (0x116B7, 0x116B7), (0x1171D, 0x1171F), (0x11722, 0x11725), (0x11727, 0x1172B),
     (0x1182F, 0x11837), (0x11839, 0x1183A), (0x1193B, 0x1193C), (0x1193E, 0x1193E),
     (0x11943, 0x11943), (0x119D4, 0x119D7), (0x119DA, 0x119DB), (0x119E0, 0x119E0),
     (0x11A01, 0x11A0A), (0x11A33, 0x11A38), (0x11A3B, 0x11A3E), (0x11A47, 0x11A47),
     (0x11A51, 0x11A56), (0x11A59, 0x11A5B), (0x11A8A, 0x11A96), (0x11A98, 0x11A99),
     (0x11C30, 0x11C36), (0x11C38, 0x11C3D), (0x11C3F, 0x11C3F), (0x11C92, 0x11CA7),
     (0x11CAA, 0x11CB0), (0x11CB2, 0x11CB3), (0x11CB5, 0x11CB6), (0x11D31, 0x11D36),
     (0x11D3A, 0x11D3A), (0x11D3C, 0x11D3D), (0x11D3F, 0x11D45), (0x11D47, 0x11D47),
     (0x11D90, 0x11D91), (0x11D95, 0x11D95), (0x11D97, 0x11D97), (0x11EF3, 0x11EF4),
     (0x13430, 0x13438), (0x16AF0, 0x16AF4), (0x16B30, 0x16B36), (0x16B40, 0x16B43),
     (0x16F4F, 0x16F4F), (0x16F8F, 0x16F9F), (0x16FE0, 0x16FE1), (0x16FE3, 0x16FE4),
     (0x1AFF0, 0x1AFF3), (0x1AFF5, 0x1AFFB), (0x1AFFD, 0x1AFFE), (0x1BC9D, 0x1BC9E),
     (0x1BCA0, 0x1BCA3), (0x1CF00, 0x1CF2D), (0x1CF30, 0x1CF46), (0x1D167, 0x1D169),
     (0x1D173, 0x1D182), (0x1D185, 0x1D18B), (0x1D1AA, 0x1D1AD), (0x1D242, 0x1D244),
     (0x1DA00, 0x1DA36), (0x1DA3B, 0x1DA6C), (0x1DA75, 0x1DA75), (0x1DA84, 0x1DA84),
     (0x1DA9B, 0x1DA9F), (0x1DAA1, 0x1DAAF), (0x1E000, 0x1E006), (0x1E008, 0x1E018),
     (0x1E01B, 0x1E021), (0x1E023, 0x1E024), (0x1E026, 0x1E02A), (0x1E130, 0x1E13D),
     (0x1E2AE, 0x1E2AE), (0x1E2EC, 0x1E2EF), (0x1E8D0, 0x1E8D6), (0x1E944, 0x1E94B),
     (0x1F3FB, 0x1F3FF), (0xE0001, 0xE0001), (0xE0020, 0xE007F), (0xE0100, 0xE01EF)]"

definition casedRanges :: "(int \<times> int) list" where
  \<comment> \<open>The property \<open>Cased\<close> of \<open>DerivedCoreProperties.txt\<close>, as ranges.\<close>
  "casedRanges =
    [(0x41, 0x5A), (0x61, 0x7A), (0xAA, 0xAA), (0xB5, 0xB5), (0xBA, 0xBA), (0xC0, 0xD6),
     (0xD8, 0xF6), (0xF8, 0x1BA), (0x1BC, 0x1BF), (0x1C4, 0x293), (0x295, 0x2B8), (0x2C0, 0x2C1),
     (0x2E0, 0x2E4), (0x345, 0x345), (0x370, 0x373), (0x376, 0x377), (0x37A, 0x37D),
     (0x37F, 0x37F), (0x386, 0x386), (0x388, 0x38A), (0x38C, 0x38C), (0x38E, 0x3A1),
     (0x3A3, 0x3F5), (0x3F7, 0x481), (0x48A, 0x52F), (0x531, 0x556), (0x560, 0x588),
     (0x10A0, 0x10C5), (0x10C7, 0x10C7), (0x10CD, 0x10CD), (0x10D0, 0x10FA), (0x10FD, 0x10FF),
     (0x13A0, 0x13F5), (0x13F8, 0x13FD), (0x1C80, 0x1C88), (0x1C90, 0x1CBA), (0x1CBD, 0x1CBF),
     (0x1D00, 0x1DBF), (0x1E00, 0x1F15), (0x1F18, 0x1F1D), (0x1F20, 0x1F45), (0x1F48, 0x1F4D),
     (0x1F50, 0x1F57), (0x1F59, 0x1F59), (0x1F5B, 0x1F5B), (0x1F5D, 0x1F5D), (0x1F5F, 0x1F7D),
     (0x1F80, 0x1FB4), (0x1FB6, 0x1FBC), (0x1FBE, 0x1FBE), (0x1FC2, 0x1FC4), (0x1FC6, 0x1FCC),
     (0x1FD0, 0x1FD3), (0x1FD6, 0x1FDB), (0x1FE0, 0x1FEC), (0x1FF2, 0x1FF4), (0x1FF6, 0x1FFC),
     (0x2071, 0x2071), (0x207F, 0x207F), (0x2090, 0x209C), (0x2102, 0x2102), (0x2107, 0x2107),
     (0x210A, 0x2113), (0x2115, 0x2115), (0x2119, 0x211D), (0x2124, 0x2124), (0x2126, 0x2126),
     (0x2128, 0x2128), (0x212A, 0x212D), (0x212F, 0x2134), (0x2139, 0x2139), (0x213C, 0x213F),
     (0x2145, 0x2149), (0x214E, 0x214E), (0x2160, 0x217F), (0x2183, 0x2184), (0x24B6, 0x24E9),
     (0x2C00, 0x2CE4), (0x2CEB, 0x2CEE), (0x2CF2, 0x2CF3), (0x2D00, 0x2D25), (0x2D27, 0x2D27),
     (0x2D2D, 0x2D2D), (0xA640, 0xA66D), (0xA680, 0xA69D), (0xA722, 0xA787), (0xA78B, 0xA78E),
     (0xA790, 0xA7CA), (0xA7D0, 0xA7D1), (0xA7D3, 0xA7D3), (0xA7D5, 0xA7D9), (0xA7F5, 0xA7F6),
     (0xA7F8, 0xA7FA), (0xAB30, 0xAB5A), (0xAB5C, 0xAB68), (0xAB70, 0xABBF), (0xFB00, 0xFB06),
     (0xFB13, 0xFB17), (0xFF21, 0xFF3A), (0xFF41, 0xFF5A), (0x10400, 0x1044F),
     (0x104B0, 0x104D3), (0x104D8, 0x104FB), (0x10570, 0x1057A), (0x1057C, 0x1058A),
     (0x1058C, 0x10592), (0x10594, 0x10595), (0x10597, 0x105A1), (0x105A3, 0x105B1),
     (0x105B3, 0x105B9), (0x105BB, 0x105BC), (0x10780, 0x10780), (0x10783, 0x10785),
     (0x10787, 0x107B0), (0x107B2, 0x107BA), (0x10C80, 0x10CB2), (0x10CC0, 0x10CF2),
     (0x118A0, 0x118DF), (0x16E40, 0x16E7F), (0x1D400, 0x1D454), (0x1D456, 0x1D49C),
     (0x1D49E, 0x1D49F), (0x1D4A2, 0x1D4A2), (0x1D4A5, 0x1D4A6), (0x1D4A9, 0x1D4AC),
     (0x1D4AE, 0x1D4B9), (0x1D4BB, 0x1D4BB), (0x1D4BD, 0x1D4C3), (0x1D4C5, 0x1D505),
     (0x1D507, 0x1D50A), (0x1D50D, 0x1D514), (0x1D516, 0x1D51C), (0x1D51E, 0x1D539),
     (0x1D53B, 0x1D53E), (0x1D540, 0x1D544), (0x1D546, 0x1D546), (0x1D54A, 0x1D550),
     (0x1D552, 0x1D6A5), (0x1D6A8, 0x1D6C0), (0x1D6C2, 0x1D6DA), (0x1D6DC, 0x1D6FA),
     (0x1D6FC, 0x1D714), (0x1D716, 0x1D734), (0x1D736, 0x1D74E), (0x1D750, 0x1D76E),
     (0x1D770, 0x1D788), (0x1D78A, 0x1D7A8), (0x1D7AA, 0x1D7C2), (0x1D7C4, 0x1D7CB),
     (0x1DF00, 0x1DF09), (0x1DF0B, 0x1DF1E), (0x1E900, 0x1E943), (0x1F130, 0x1F149),
     (0x1F150, 0x1F169), (0x1F170, 0x1F189)]"

definition inRanges :: "int \<Rightarrow> (int \<times> int) list \<Rightarrow> bool" where
  "inRanges c ranges = list_ex (\<lambda>(lo, hi). lo \<le> c \<and> c \<le> hi) ranges"

definition isCaseIgnorable :: "int \<Rightarrow> bool" where
  "isCaseIgnorable c = inRanges c caseIgnorableRanges"

definition isCased :: "int \<Rightarrow> bool" where
  "isCased c = inRanges c casedRanges"

definition simpleLowercase :: "int \<Rightarrow> int" where
  \<comment> \<open>The simple lower-case mapping of a code point; a code point without one maps to
      itself.\<close>
  "simpleLowercase c =
     (case find (\<lambda>(lo, hi, step, lower). lo \<le> c \<and> c \<le> hi \<and> (c - lo) mod step = 0) lowercaseRuns of
        None \<Rightarrow> c
      | Some (lo, hi, step, lower) \<Rightarrow> lower + (c - lo))"

definition isLeadSurrogate :: "codeUnit \<Rightarrow> bool" where
  "isLeadSurrogate c \<longleftrightarrow> 0xD800 \<le> c \<and> c \<le> 0xDBFF"

definition isTrailSurrogate :: "codeUnit \<Rightarrow> bool" where
  "isTrailSurrogate c \<longleftrightarrow> 0xDC00 \<le> c \<and> c \<le> 0xDFFF"

fun stringToCodePoints :: "codeUnit list \<Rightarrow> int list" where
  \<comment> \<open>A lead surrogate followed by a trail surrogate is one code point above \<open>0xFFFF\<close>;
      every other code unit, a lone surrogate too, is a code point of its own.\<close>
  "stringToCodePoints [] = []"
| "stringToCodePoints [c] = [c]"
| "stringToCodePoints (c # d # s) =
     (if isLeadSurrogate c \<and> isTrailSurrogate d
      then ((c - 0xD800) * 0x400 + (d - 0xDC00) + 0x10000) # stringToCodePoints s
      else c # stringToCodePoints (d # s))"

definition utf16EncodeCodePoint :: "int \<Rightarrow> codeUnit list" where
  "utf16EncodeCodePoint cp =
     (if cp \<le> 0xFFFF then [cp]
      else [(cp - 0x10000) div 0x400 + 0xD800, (cp - 0x10000) mod 0x400 + 0xDC00])"

definition codePointsToString :: "int list \<Rightarrow> codeUnit list" where
  "codePointsToString cps = concat (map utf16EncodeCodePoint cps)"

definition casedLetterNext :: "int list \<Rightarrow> bool" where
  \<comment> \<open>The first code point of the list that is not case-ignorable exists and is cased.\<close>
  "casedLetterNext cps =
     (case dropWhile isCaseIgnorable cps of [] \<Rightarrow> False | c # _ \<Rightarrow> isCased c)"

definition finalSigma :: "int list \<Rightarrow> int list \<Rightarrow> bool" where
  \<comment> \<open>The context \<open>Final_Sigma\<close> of a code point, given the code points before it (the
      nearest first) and after it: a cased letter stands before it and none after it,
      case-ignorable code points between them and it left aside.\<close>
  "finalSigma preceding following \<longleftrightarrow>
     casedLetterNext preceding \<and> \<not> casedLetterNext following"

fun toLowercase :: "int list \<Rightarrow> int list \<Rightarrow> int list" where
  \<comment> \<open>\<open>toLowercase\<close> of the code points that remain, \<open>preceding\<close> being the code points
      already read, the nearest first.\<close>
  "toLowercase preceding [] = []"
| "toLowercase preceding (c # following) =
     (if c = 0x3A3 then [if finalSigma preceding following then 0x3C2 else 0x3C3]
      else if c = 0x130 then [0x69, 0x307]
      else [simpleLowercase c]) @ toLowercase (c # preceding) following"

definition toLowerCase :: "codeUnit list \<Rightarrow> codeUnit list" where
  "toLowerCase s = codePointsToString (toLowercase [] (stringToCodePoints s))"

section \<open>Context matcher\<close>

record 'c MatchWindow =
  lineNumber :: int
  windowContext :: "'c list list"
  matchLine :: int

function findContextInFile_loop ::
  "codeUnit list list \<Rightarrow> codeUnit list \<Rightarrow> int \<Rightarrow> nat \<Rightarrow> codeUnit MatchWindow list
     \<Rightarrow> codeUnit MatchWindow list" where
  \<comment> \<open>The \<open>for\<close> loop of \<open>findContextInFile\<close>, from index \<open>i\<close> with the matches so far.\<close>
  "findContextInFile_loop lines searchLower contextLines i matches =
     (if i < length lines then
        (if includes_str (toLowerCase (lines ! i)) searchLower then
           (let start = max 0 (int i - contextLines);
                end = min (int (length lines)) (int i + contextLines + 1);
                context = slice lines start end
            in findContextInFile_loop lines searchLower contextLines (i + 1)
                 (matches @ [\<lparr>lineNumber = int i + 1, windowContext = context, matchLine = int i - start\<rparr>]))
         else findContextInFile_loop lines searchLower contextLines (i + 1) matches)
      else matches)"
  by pat_completeness auto
termination
  by (relation "measure (\<lambda>(lines, searchLower, contextLines, i, matches). length lines - i)") auto

definition findContextInFile :: "codeUnit list \<Rightarrow> codeUnit list \<Rightarrow> int \<Rightarrow> codeUnit MatchWindow list" where
  "findContextInFile content searchTerm contextLines =
     (let lines = split_on 0x0A content;
          searchLower = toLowerCase searchTerm
      in findContextInFile_loop lines searchLower contextLines 0 [])"

definition windowAt :: "'c list list \<Rightarrow> int \<Rightarrow> nat \<Rightarrow> 'c MatchWindow" where
  \<comment> \<open>The window the loop body builds at index \<open>i\<close>, named for the statements below.\<close>
  "windowAt lines contextLines i =
     \<lparr>lineNumber = int i + 1,
      windowContext = slice lines (max 0 (int i - contextLines)) (min (int (length lines)) (int i + contextLines + 1)),
      matchLine = int i - max 0 (int i - contextLines)\<rparr>"

definition ci_substring :: "codeUnit list \<Rightarrow> codeUnit list \<Rightarrow> bool" where
  \<comment> \<open>\<open>t\<close> occurs in \<open>line\<close> up to letter case: some substring of \<open>line\<close> and \<open>t\<close> have the
      same lower-case form.\<close>
  "ci_substring line t \<longleftrightarrow> list_ex (\<lambda>u. toLowerCase u = toLowerCase t) (sublists line)"

definition plainUnit :: "codeUnit \<Rightarrow> bool" where
  \<comment> \<open>A code unit that is a character of its own and whose lower-case form is one code
      unit that no context changes: any code unit but the surrogates, \<open>U+0130\<close> and \<open>U+03A3\<close>.\<close>
  "plainUnit c \<longleftrightarrow> 0 \<le> c \<and> c \<le> 0xFFFF \<and> \<not> isLeadSurrogate c \<and> \<not> isTrailSurrogate c \<and> c \<noteq> 0x130 \<and> c \<noteq> 0x3A3"

section \<open>Text wrapper\<close>

definition trimEnd :: "string \<Rightarrow> string" where
  "trimEnd s = rev (dropWhile isSpace (rev s))"

definition trim :: "string \<Rightarrow> string" where
  "trim s = dropWhile isSpace (trimEnd s)"

definition isAnsiParam :: "char \<Rightarrow> bool" where
  \<comment> \<open>The class \<open>[0-9;]\<close>.\<close>
  "isAnsiParam c \<longleftrightarrow> (CHR ''0'' \<le> c \<and> c \<le> CHR ''9'') \<or> c = CHR '';''"

definition ansi_match :: "string \<Rightarrow> string option" where
  \<comment> \<open>A match of \<open>/\u001b\[[0-9;]*m/\<close> at the start of \<open>s\<close>: the text after the match.
      The greedy \<open>[0-9;]*\<close> takes the whole run of parameter characters, and no shorter
      run can be followed by \<open>m\<close>, which is not a parameter character.\<close>
  "ansi_match s =
     (case s of
        e # b # r \<Rightarrow>
          (if e = CHR 0x1B \<and> b = CHR ''['' then
             (case dropWhile isAnsiParam r of
                m # rest \<Rightarrow> if m = CHR ''m'' then Some rest else None
              | [] \<Rightarrow> None)
           else None)
      | _ \<Rightarrow> None)"

lemma ansi_match_shorter: "ansi_match s = Some rest \<Longrightarrow> length rest < length s"
proof -
  assume a: "ansi_match s = Some rest"
  then obtain e b r where s: "s = e # b # r" and d: "dropWhile isAnsiParam r = CHR ''m'' # rest"
    by (auto simp: ansi_match_def split: list.splits if_splits)
  have "length (dropWhile isAnsiParam r) \<le> length r"
    by (rule length_dropWhile_le)
  with d s show ?thesis by simp
qed

function stripAnsiCodes :: "string \<Rightarrow> string" where
  \<comment> \<open>\<open>str.replace(/\u001b\[[0-9;]*m/g, '')\<close>: every match, found from left to right, is removed.\<close>
  "stripAnsiCodes s =
     (case s of
        [] \<Rightarrow> []
      | c # cs \<Rightarrow>
          (case ansi_match s of
             Some rest \<Rightarrow> stripAnsiCodes rest
           | None \<Rightarrow> c # stripAnsiCodes cs))"
  by pat_completeness auto
termination
  by (relation "measure length") (auto dest: ansi_match_shorter)

function split_ws :: "string \<Rightarrow> string list" where
  \<comment> \<open>\<open>text.split(/(\s{3,}|\s+)/)\<close>: the separator matches a whole run of whitespace (by
      its first alternative when the run has 3 or more characters, by its second
      otherwise) and, being captured, is kept; the result alternates words and
      whitespace runs, with an empty word where the text starts or ends with whitespace.\<close>
  "split_ws s =
     (let word = takeWhile (\<lambda>c. \<not> isSpace c) s;
          r = dropWhile (\<lambda>c. \<not> isSpace c) s
      in if r = [] then [word]
         else word # takeWhile isSpace r # split_ws (dropWhile isSpace r))"
  by pat_completeness auto
termination
proof (relation "measure length")
  fix s :: string and word r
  assume r: "r = dropWhile (\<lambda>c. \<not> isSpace c) s" and ne: "r \<noteq> []"
  then have "isSpace (hd r)"
    using hd_dropWhile [of "\<lambda>c. \<not> isSpace c" s] by simp
  then have "length (dropWhile isSpace r) < length r"
    using ne by (cases r) (auto simp: less_Suc_eq_le length_dropWhile_le)
  moreover have "length r \<le> length s"
    unfolding r by (rule length_dropWhile_le)
  ultimately show "(dropWhile isSpace r, s) \<in> measure length"
    by simp
qed simp

definition isColumnBreak :: "string \<Rightarrow> bool" where
  \<comment> \<open>\<open>part.match(/^\s{3,}$/)\<close>: the part is 3 or more whitespace characters and nothing else.\<close>
  "isColumnBreak part \<longleftrightarrow> 3 \<le> length part \<and> list_all isSpace part"

fun wrapLine_loop :: "int \<Rightarrow> string list \<Rightarrow> string list \<Rightarrow> string \<Rightarrow> string list \<times> string" where
  \<comment> \<open>The \<open>for\<close> loop of \<open>wrapLine\<close> over the remaining parts, with \<open>lines\<close> and \<open>currentLine\<close>.\<close>
  "wrapLine_loop maxWidth [] lines currentLine = (lines, currentLine)"
| "wrapLine_loop maxWidth (part # parts) lines currentLine =
     (let partLength = int (length (stripAnsiCodes part));
          currentLength = int (length (stripAnsiCodes currentLine))
      in if currentLength + partLength > maxWidth \<and> length currentLine > 0 then
           (if isColumnBreak part
            then wrapLine_loop maxWidth parts (lines @ [trimEnd currentLine]) []
            else wrapLine_loop maxWidth parts (lines @ [trimEnd currentLine]) part)
         else wrapLine_loop maxWidth parts lines (currentLine @ part))"

definition wrapLine :: "string \<Rightarrow> int \<Rightarrow> string list" where
  "wrapLine text maxWidth =
     (case wrapLine_loop maxWidth (split_ws text) [] [] of
        (lines, currentLine) \<Rightarrow>
          if length (trim currentLine) > 0 then lines @ [trimEnd currentLine] else lines)"

function normalizeSpaces :: "string \<Rightarrow> string" where
  \<comment> \<open>\<open>line.replace(/\s{3,}/g, '   ')\<close>: scanning from the left, a run of 3 or more
      whitespace characters is matched whole (the quantifier is greedy) and replaced by 3
      spaces; where no match starts, the character is copied.\<close>
  "normalizeSpaces s =
     (case s of
        [] \<Rightarrow> []
      | c # cs \<Rightarrow>
          (if 3 \<le> length (takeWhile isSpace s)
           then ''   '' @ normalizeSpaces (dropWhile isSpace s)
           else c # normalizeSpaces cs))"
  by pat_completeness auto
termination
proof (relation "measure length")
  fix s :: string and c cs
  assume "s = c # cs" and "3 \<le> length (takeWhile isSpace s)"
  moreover have "length (takeWhile isSpace s) + length (dropWhile isSpace s) = length s"
    by (metis length_append takeWhile_dropWhile_id)
  ultimately show "(dropWhile isSpace s, s) \<in> measure length"
    by simp
qed simp_all

definition runs_ok :: "string \<Rightarrow> bool" where
  \<comment> \<open>No position of \<open>s\<close> starts a run of more than 3 whitespace characters.\<close>
  "runs_ok s \<longleftrightarrow> (\<forall>n. length (takeWhile isSpace (drop n s)) \<le> 3)"

definition segment_ok :: "int \<Rightarrow> string list \<Rightarrow> string \<Rightarrow> bool" where
  \<comment> \<open>A segment fits the width, or is one part wider than the width, alone.\<close>
  "segment_ok w parts seg \<longleftrightarrow>
     int (length (stripAnsiCodes seg)) \<le> w \<or>
     (\<exists>p\<in>set parts. seg = trimEnd p \<and> w < int (length (stripAnsiCodes p)) \<and> (0 \<le> w \<longrightarrow> seg = p))"

definition current_ok :: "int \<Rightarrow> string list \<Rightarrow> string \<Rightarrow> bool" where
  \<comment> \<open>The loop invariant of \<open>wrapLine\<close> on \<open>currentLine\<close>.\<close>
  "current_ok w parts cur \<longleftrightarrow>
     cur = [] \<or> int (length (stripAnsiCodes cur)) \<le> w \<or>
     (cur \<in> set parts \<and> w < int (length (stripAnsiCodes cur)))"

section \<open>Preview formatter: context lines\<close>

definition substring :: "string \<Rightarrow> int \<Rightarrow> int \<Rightarrow> string" where
  \<comment> \<open>\<open>s.substring(a, b)\<close>: both indices are clamped to \<open>0..length\<close>, then ordered.\<close>
  "substring s a b =
     (let len = int (length s);
          finalStart = min (max a 0) len;
          finalEnd = min (max b 0) len;
          from = min finalStart finalEnd;
          to = max finalStart finalEnd
      in take (nat (to - from)) (drop (nat from) s))"

definition lastIndexOf :: "string \<Rightarrow> char \<Rightarrow> int" where
  \<comment> \<open>\<open>s.lastIndexOf(c)\<close>: the index of the last \<open>c\<close> in \<open>s\<close>, or \<open>-1\<close>.\<close>
  "lastIndexOf s c =
     (case dropWhile (\<lambda>x. x \<noteq> c) (rev s) of
        [] \<Rightarrow> - 1
      | _ # r \<Rightarrow> int (length r))"

function decimal :: "int \<Rightarrow> string" where
  \<comment> \<open>The decimal digits of an integer that is not negative.\<close>
  "decimal n =
     (if n < 10 then [char_of (48 + n)]
      else decimal (n div 10) @ [char_of (48 + n mod 10)])"
  by pat_completeness auto
termination
  by (relation "measure nat") auto

definition toString :: "int \<Rightarrow> string" where
  \<comment> \<open>\<open>n.toString()\<close> for an integer.\<close>
  "toString n = (if n < 0 then CHR ''-'' # decimal (- n) else decimal n)"

definition padStart :: "nat \<Rightarrow> string \<Rightarrow> string" where
  \<comment> \<open>\<open>s.padStart(n)\<close>: spaces on the left up to length \<open>n\<close>.\<close>
  "padStart n s = replicate (n - length s) (CHR '' '') @ s"

text \<open>
  \<open>maxLineWidth * 0.7\<close> is a product of IEEE 754 doubles. The double \<open>0.7\<close> is
  \<open>6305039478318694 / 2^53\<close>. For an integer \<open>m\<close> with \<open>|m| < 2^53\<close> the exact product
  \<open>m * 6305039478318694 / 2^53\<close> is rounded to 53 significant bits, ties to even;
  \<^term>\<open>times_0_7 m\<close> is the rounded product times \<open>2^53\<close>, an integer.
\<close>

function bitlen :: "int \<Rightarrow> nat" where
  \<comment> \<open>The number of binary digits of a positive integer.\<close>
  "bitlen n = (if n \<le> 0 then 0 else Suc (bitlen (n div 2)))"
  by pat_completeness auto
termination
  by (relation "measure nat") auto

definition round53 :: "int \<Rightarrow> int" where
  "round53 p =
     (let k = bitlen p - 53 in
      if k = 0 then p
      else
        (let q = p div 2 ^ k;
             r = p mod 2 ^ k;
             half = 2 ^ (k - 1)
         in (if r > half \<or> (r = half \<and> odd q) then q + 1 else q) * 2 ^ k))"

definition times_0_7 :: "int \<Rightarrow> int" where
  "times_0_7 m = sgn m * round53 (\<bar>m\<bar> * 6305039478318694)"

definition gt_times_0_7 :: "int \<Rightarrow> int \<Rightarrow> bool" where
  \<comment> \<open>\<open>x > m * 0.7\<close> for integers \<open>x\<close> and \<open>m\<close>.\<close>
  "gt_times_0_7 x m \<longleftrightarrow> x * 2 ^ 53 > times_0_7 m"

definition maxLineWidth_of :: "int option \<Rightarrow> int" where
  \<comment> \<open>\<open>(process.stdout.columns || 80) - lineNumWidth - 2\<close> with \<open>lineNumWidth = 8\<close>.\<close>
  "maxLineWidth_of columns =
     (let terminalWidth = (case columns of None \<Rightarrow> 80 | Some c \<Rightarrow> if c = 0 then 80 else c);
          lineNumWidth = 8
      in terminalWidth - lineNumWidth - 2)"

definition formatPreview_contextLine ::
  "(string \<Rightarrow> string) \<Rightarrow> int \<Rightarrow> char MatchWindow \<Rightarrow> nat \<Rightarrow> string" where
  \<comment> \<open>What \<open>formatPreview\<close> appends to its output for the context line at index \<open>i\<close> of
      \<open>match.context\<close> when \<open>i\<close> is not \<open>match.matchLine\<close> (the \<open>else\<close> branch of the inner
      loop). \<open>gray\<close> is \<open>chalk.gray\<close>, the styling function of the terminal library.\<close>
  "formatPreview_contextLine gray maxLineWidth match i =
     (let line = normalizeSpaces (windowContext match ! i);
          lineNum = lineNumber match - matchLine match + int i;
          lineNumStr = padStart 6 (toString lineNum);
          lineLength = int (length (stripAnsiCodes line))
      in if lineLength > maxLineWidth then
           (let truncated = substring line 0 (maxLineWidth - 3);
                lastSpace = lastIndexOf truncated (CHR '' '');
                truncateAt = (if gt_times_0_7 lastSpace maxLineWidth then lastSpace else maxLineWidth - 3);
                finalLine = substring line 0 truncateAt @ gray ''...'';
                prefix = gray ('' '' @ lineNumStr @ '': '')
            in prefix @ finalLine @ [CHR 0x0A])
         else
           (let prefix = gray ('' '' @ lineNumStr @ '': '')
            in prefix @ line @ [CHR 0x0A]))"

definition collapseRun :: "string \<Rightarrow> string" where
  \<comment> \<open>A run of 3 or more whitespace characters becomes 3 spaces; any other part stays.\<close>
  "collapseRun part = (if isColumnBreak part then ''   '' else part)"

definition lastSpaceBefore :: "string \<Rightarrow> nat \<Rightarrow> nat option" where
  \<comment> \<open>The greatest index below \<open>t\<close> at which \<open>s\<close> has a space, if there is one.\<close>
  "lastSpaceBefore s t =
     (let js = filter (\<lambda>j. s ! j = CHR '' '') [0..<min t (length s)]
      in if js = [] then None else Some (last js))"

section \<open>Domain classifier\<close>

definition isAlpha :: "char \<Rightarrow> bool" where
  \<comment> \<open>The class \<open>[a-zA-Z]\<close>.\<close>
  "isAlpha c \<longleftrightarrow> (CHR ''a'' \<le> c \<and> c \<le> CHR ''z'') \<or> (CHR ''A'' \<le> c \<and> c \<le> CHR ''Z'')"

definition isAlnum :: "char \<Rightarrow> bool" where
  \<comment> \<open>The class \<open>[a-zA-Z0-9]\<close>.\<close>
  "isAlnum c \<longleftrightarrow> isAlpha c \<or> (CHR ''0'' \<le> c \<and> c \<le> CHR ''9'')"

definition isAlnumHyphen :: "char \<Rightarrow> bool" where
  \<comment> \<open>The class \<open>[a-zA-Z0-9-]\<close>.\<close>
  "isAlnumHyphen c \<longleftrightarrow> isAlnum c \<or> c = CHR ''-''"

definition stripProtocol :: "string \<Rightarrow> string" where
  \<comment> \<open>\<open>s.replace(/^https?:\/\//, '')\<close>: a leading \<open>http://\<close> or \<open>https://\<close> is removed.\<close>
  "stripProtocol s =
     (if prefix ''https://'' s then drop 8 s
      else if prefix ''http://'' s then drop 7 s
      else s)"

definition domainPart :: "string \<Rightarrow> string" where
  \<comment> \<open>\<open>searchTerm.replace(/^https?:\/\//, '').split('/')[0]\<close>.\<close>
  "domainPart searchTerm = hd (split_on (CHR ''/'') (stripProtocol searchTerm))"

definition isDomain :: "string \<Rightarrow> bool" where
  \<comment> \<open>\<open>/^[a-zA-Z0-9][a-zA-Z0-9-]*[a-zA-Z0-9]*\.[a-zA-Z]{2,}/.test(cleaned)\<close>. After the first
      character the greedy \<open>[a-zA-Z0-9-]*\<close> takes the whole run of its class; the dot can only
      match the character after that run, whatever the two starred classes share out
      between them, since every character of the run is not a dot. The pattern has no
      \<open>$\<close>: what follows the two letters after the dot is not looked at.\<close>
  "isDomain searchTerm =
     (case domainPart searchTerm of
        [] \<Rightarrow> False
      | c # cs \<Rightarrow>
          isAlnum c \<and>
          (case dropWhile isAlnumHyphen cs of
             [] \<Rightarrow> False
           | d # rest \<Rightarrow> d = CHR ''.'' \<and> 2 \<le> length (takeWhile isAlpha rest)))"

definition domain_shape :: "string \<Rightarrow> bool" where
  \<comment> \<open>The shape \<open>label(-label)*.tld\<close> in the words of the specification: the string is
      labels joined by hyphens, each label a non-empty run of letters and digits, then
      a dot, then a final segment of 2 or more letters and nothing else.\<close>
  "domain_shape s =
     (case dropWhile (\<lambda>x. x \<noteq> CHR ''.'') s of
        [] \<Rightarrow> False
      | _ # tld \<Rightarrow>
          list_all (\<lambda>l. l \<noteq> [] \<and> list_all isAlnum l)
            (split_on (CHR ''-'') (takeWhile (\<lambda>x. x \<noteq> CHR ''.'') s))
          \<and> 2 \<le> length tld \<and> list_all isAlpha tld)"

section \<open>Credential extractor\<close>

definition canonicalize :: "char \<Rightarrow> char" where
  \<comment> \<open>The case folding of a regular expression with the \<open>i\<close> flag: a character is
      compared by its upper-case form. \<open>a-z\<close> and the Latin-1 small letters \<open>0xE0-0xFE\<close>
      (except the sign \<open>0xF7\<close>) move down by 32; the three small letters whose upper-case
      form is not a code unit below 256 (\<open>0xB5\<close>, \<open>0xDF\<close>, \<open>0xFF\<close>) equal no other
      character of the model and stay.\<close>
  "canonicalize c =
     (if (CHR ''a'' \<le> c \<and> c \<le> CHR ''z'') \<or> (CHR 0xE0 \<le> c \<and> c \<le> CHR 0xFE \<and> c \<noteq> CHR 0xF7)
      then char_of (of_char c - (32::nat)) else c)"

fun match_literal :: "string \<Rightarrow> string \<Rightarrow> string option" where
  \<comment> \<open>The literal pattern \<open>p\<close>, each character compared up to case, at the start of the
      text: the text after the match. The source escapes every syntax character of the
      domain before it builds the pattern, so the domain is such a literal.\<close>
  "match_literal [] s = Some s"
| "match_literal (p # ps) [] = None"
| "match_literal (p # ps) (c # cs) =
     (if canonicalize p = canonicalize c then match_literal ps cs else None)"

definition skip_path :: "char \<Rightarrow> string \<Rightarrow> string" where
  \<comment> \<open>The optional group \<open>(?:/[^d]*)?\<close> for the delimiter \<open>d\<close>: after a \<open>/\<close> the greedy class
      takes every character up to the next \<open>d\<close> (line breaks too).\<close>
  "skip_path d r =
     (case r of
        [] \<Rightarrow> r
      | c # cs \<Rightarrow> if c = CHR ''/'' then dropWhile (\<lambda>x. x \<noteq> d) cs else r)"

definition expect :: "char \<Rightarrow> string \<Rightarrow> string option" where
  \<comment> \<open>The literal character \<open>d\<close>.\<close>
  "expect d r = (case r of [] \<Rightarrow> None | c # cs \<Rightarrow> if c = d then Some cs else None)"

definition capture_run :: "char \<Rightarrow> string \<Rightarrow> (string \<times> string) option" where
  \<comment> \<open>The group \<open>([^d\s]+)\<close>: the whole run of characters that are neither \<open>d\<close> nor
      whitespace, which must not be empty, and the text after it.\<close>
  "capture_run d r =
     (let run = takeWhile (\<lambda>x. x \<noteq> d \<and> \<not> isSpace x) r
      in if run = [] then None else Some (run, dropWhile (\<lambda>x. x \<noteq> d \<and> \<not> isSpace x) r))"

definition triple_at :: "char \<Rightarrow> string \<Rightarrow> string \<Rightarrow> ((string \<times> string) \<times> string) option" where
  \<comment> \<open>A match of \<open>DOMAIN(?:/[^d]*)?d([^d\s]+)d([^d\s\n]+)\<close> at the start of the text, for the
      delimiter \<open>d\<close>: the two captures and the text after the match. Each greedy
      quantifier takes the whole run of its class: the character after the run is not
      in the class of the run, and only it can match the delimiter that follows in the
      pattern (or end the match), so no shorter run leads to a match; a text that has \<open>/\<close>
      after the domain cannot match without the optional group, which would need the
      delimiter there.\<close>
  "triple_at d domain s =
     (case match_literal domain s of
        None \<Rightarrow> None
      | Some r0 \<Rightarrow>
          (case expect d (skip_path d r0) of
             None \<Rightarrow> None
           | Some r2 \<Rightarrow>
               (case capture_run d r2 of
                  None \<Rightarrow> None
                | Some (username, r3) \<Rightarrow>
                    (case expect d r3 of
                       None \<Rightarrow> None
                     | Some r4 \<Rightarrow>
                         (case capture_run d r4 of
                            None \<Rightarrow> None
                          | Some (password, rest) \<Rightarrow> Some ((username, password), rest))))))"

definition pattern1_at :: "string \<Rightarrow> string \<Rightarrow> ((string \<times> string) \<times> string) option" where
  \<comment> \<open>\<open>pattern1\<close>: \<open>DOMAIN(?:/[^:]*)?:([^:\s]+):([^:\s\n]+)\<close>.\<close>
  "pattern1_at domain s = triple_at (CHR '':'') domain s"

definition match_protocol :: "string \<Rightarrow> string option" where
  \<comment> \<open>\<open>https?://\<close> up to case, at the start of the text.\<close>
  "match_protocol s =
     (case match_literal ''http'' s of
        None \<Rightarrow> None
      | Some r \<Rightarrow>
          (case (case r of
                   [] \<Rightarrow> None
                 | c # cs \<Rightarrow>
                     if canonicalize c = canonicalize (CHR ''s'') then match_literal ''://'' cs
                     else None) of
             Some r' \<Rightarrow> Some r'
           | None \<Rightarrow> match_literal ''://'' r))"

definition pattern2_at :: "string \<Rightarrow> string \<Rightarrow> ((string \<times> string) \<times> string) option" where
  \<comment> \<open>\<open>pattern2\<close>: \<open>(?:https?://)?DOMAIN(?:/[^|]*)?\|([^|\s]+)\|([^|\s\n]+)\<close>. The optional
      protocol is tried first; when the rest does not match after it, the rest is tried
      without it.\<close>
  "pattern2_at domain s =
     (case match_protocol s of
        None \<Rightarrow> triple_at (CHR ''|'') domain s
      | Some r \<Rightarrow>
          (case triple_at (CHR ''|'') domain r of
             Some m \<Rightarrow> Some m
           | None \<Rightarrow> triple_at (CHR ''|'') domain s))"

lemma match_literal_length: "match_literal p s = Some r \<Longrightarrow> length r \<le> length s"
  by (induction p s rule: match_literal.induct) (auto split: if_splits)

lemma skip_path_length: "length (skip_path d r) \<le> length r"
  unfolding skip_path_def by (auto split: list.splits intro: le_SucI length_dropWhile_le)

lemma expect_length: "expect d r = Some r' \<Longrightarrow> length r' < length r"
  by (auto simp: expect_def split: list.splits if_splits)

lemma capture_run_length: "capture_run d r = Some (run, r') \<Longrightarrow> length r' \<le> length r"
  by (auto simp: capture_run_def Let_def length_dropWhile_le split: if_splits)

lemma triple_at_shorter:
  assumes "triple_at d domain s = Some (cap, rest)"
  shows "length rest < length s"
proof -
  from assms obtain r0 r2 username r3 r4 password where
    "match_literal domain s = Some r0" "expect d (skip_path d r0) = Some r2"
    "capture_run d r2 = Some (username, r3)" "expect d r3 = Some r4"
    "capture_run d r4 = Some (password, rest)"
    by (auto simp: triple_at_def split: option.splits)
  then have "length r0 \<le> length s" "length r2 < length (skip_path d r0)"
    "length r3 \<le> length r2" "length r4 < length r3" "length rest \<le> length r4"
    by (auto dest: match_literal_length expect_length capture_run_length)
  then show ?thesis
    using skip_path_length [of d r0] by simp
qed

lemma match_protocol_length: "match_protocol s = Some r \<Longrightarrow> length r \<le> length s"
proof -
  assume a: "match_protocol s = Some r"
  then obtain r1 where r1: "match_literal ''http'' s = Some r1"
    by (auto simp: match_protocol_def split: option.splits)
  then have l1: "length r1 \<le> length s"
    by (rule match_literal_length)
  from a r1 consider cs where "r1 = CHR ''s'' # cs \<or> r1 = CHR ''S'' # cs \<or> length cs < length r1"
      "match_literal ''://'' cs = Some r"
    | "match_literal ''://'' r1 = Some r"
    by (auto simp: match_protocol_def split: option.splits list.splits if_splits)
  then show ?thesis
  proof cases
    case 1
    from 1(2) have "length r \<le> length cs" by (rule match_literal_length)
    moreover from 1(1) have "length cs \<le> length r1" by auto
    ultimately show ?thesis using l1 by simp
  next
    case 2
    then have "length r \<le> length r1" by (rule match_literal_length)
    with l1 show ?thesis by simp
  qed
qed

lemma pattern1_at_shorter: "pattern1_at domain s = Some (cap, rest) \<Longrightarrow> length rest < length s"
  unfolding pattern1_at_def by (rule triple_at_shorter)

lemma pattern2_at_shorter:
  assumes "pattern2_at domain s = Some (cap, rest)"
  shows "length rest < length s"
proof -
  from assms consider "triple_at (CHR ''|'') domain s = Some (cap, rest)"
    | r where "match_protocol s = Some r" "triple_at (CHR ''|'') domain r = Some (cap, rest)"
    by (auto simp: pattern2_at_def split: option.splits)
  then show ?thesis
  proof cases
    case 1
    then show ?thesis by (rule triple_at_shorter)
  next
    case 2
    from 2(2) have "length rest < length r" by (rule triple_at_shorter)
    moreover from 2(1) have "length r \<le> length s" by (rule match_protocol_length)
    ultimately show ?thesis by simp
  qed
qed

function pattern1_all :: "string \<Rightarrow> string \<Rightarrow> (string \<times> string) list" where
  \<comment> \<open>The captures of the successive \<open>pattern1.exec(text)\<close> calls of the \<open>while\<close> loop: with
      the \<open>g\<close> flag each call looks for the leftmost match from the end of the previous
      one, and the loop ends when there is none.\<close>
  "pattern1_all domain text =
     (case pattern1_at domain text of
        Some (cap, rest) \<Rightarrow> cap # pattern1_all domain rest
      | None \<Rightarrow> (case text of [] \<Rightarrow> [] | _ # cs \<Rightarrow> pattern1_all domain cs))"
  by pat_completeness auto
termination
  by (relation "measure (\<lambda>(domain, text). length text)") (auto dest: pattern1_at_shorter)

function pattern2_all :: "string \<Rightarrow> string \<Rightarrow> (string \<times> string) list" where
  \<comment> \<open>The same for \<open>pattern2\<close>.\<close>
  "pattern2_all domain text =
     (case pattern2_at domain text of
        Some (cap, rest) \<Rightarrow> cap # pattern2_all domain rest
      | None \<Rightarrow> (case text of [] \<Rightarrow> [] | _ # cs \<Rightarrow> pattern2_all domain cs))"
  by pat_completeness auto
termination
  by (relation "measure (\<lambda>(domain, text). length text)") (auto dest: pattern2_at_shorter)

definition set_add :: "string list \<Rightarrow> string \<Rightarrow> string list" where
  \<comment> \<open>\<open>Set.prototype.add\<close> on a \<open>Set\<close> of strings, kept as the list of its elements in
      insertion order (the order \<open>Array.from\<close> and \<open>forEach\<close> follow).\<close>
  "set_add credentials x = (if x \<in> set credentials then credentials else credentials @ [x])"

definition add_match :: "string list \<Rightarrow> string \<times> string \<Rightarrow> string list" where
  \<comment> \<open>The body of each \<open>while\<close> loop of \<open>extractCredentials\<close>.\<close>
  "add_match credentials m =
     (let username = trim (fst m);
          password = trim (snd m)
      in if username \<noteq> [] \<and> password \<noteq> [] \<and> length username > 0 \<and> length password > 0
         then set_add credentials (username @ '':'' @ password)
         else credentials)"

definition extractCredentials :: "string \<Rightarrow> string \<Rightarrow> string list" where
  "extractCredentials text domain =
     (let credentials = [];
          credentials = foldl add_match credentials (pattern1_all domain text);
          credentials = foldl add_match credentials (pattern2_all domain text)
      in credentials)"

section \<open>Combolist batch\<close>

text \<open>
  \<open>generateCombolist\<close> calls two collaborators over the network, \<open>getApiLimits\<close> and
  \<open>getFilePreview\<close>. They are parameters of the model: each takes the state of the
  world and returns its result, \<open>Inl\<close> the message of the error it throws or \<open>Inr\<close> the
  value it returns, with the next state of the world. What the function prints is
  left out, except the two numbers the claims are about: the count in the message
  \<open>Processed N file(s) before limit was reached\<close> is the field \<open>stoppedAfter\<close>.
\<close>

record SearchRecord =
  storageid :: string
  bucket :: string

record FileViewLimit =
  CreditMax :: "int option"
  Credit :: "int option"

record 'w BatchState =
  allCredentials :: "string list"
  processed :: int
  errors :: int
  apiExhausted :: bool
  stoppedAfter :: "int option"
  fetched :: "(string \<times> string) list"
  world :: 'w

datatype outcome = NoCredits | NothingFound | Written string string

definition isQuotaError :: "string \<Rightarrow> bool" where
  \<comment> \<open>\<open>error.message && (error.message.includes('403') || ... '429' || ... 'limit')\<close>.\<close>
  "isQuotaError message \<longleftrightarrow>
     message \<noteq> [] \<and>
     (includes_str message ''403'' \<or> includes_str message ''429'' \<or> includes_str message ''limit'')"

fun combolist_loop ::
  "('w \<Rightarrow> string \<Rightarrow> string \<Rightarrow> (string + string) \<times> 'w) \<Rightarrow> string \<Rightarrow> SearchRecord list
     \<Rightarrow> 'w BatchState \<Rightarrow> 'w BatchState" where
  \<comment> \<open>The \<open>for (const record of recordsToProcess)\<close> loop over the remaining records.\<close>
  "combolist_loop getFilePreview domainName [] st = st"
| "combolist_loop getFilePreview domainName (record # rest) st =
     (case getFilePreview (world st) (storageid record) (bucket record) of
        (result, w) \<Rightarrow>
          (let st1 = st\<lparr>processed := processed st + 1,
                        fetched := fetched st @ [(storageid record, bucket record)],
                        world := w\<rparr>
           in case result of
                Inr content \<Rightarrow>
                  (let credentials = extractCredentials content domainName
                   in combolist_loop getFilePreview domainName rest
                        (st1\<lparr>allCredentials := foldl set_add (allCredentials st1) credentials\<rparr>))
              | Inl message \<Rightarrow>
                  (let st2 = st1\<lparr>errors := errors st1 + 1\<rparr>
                   in if isQuotaError message
                      then st2\<lparr>apiExhausted := True, stoppedAfter := Some (processed st2 - 1)\<rparr>
                      else combolist_loop getFilePreview domainName rest st2)))"

definition batch_start :: "'w \<Rightarrow> 'w BatchState" where
  \<comment> \<open>The variables of \<open>generateCombolist\<close> before the loop: an empty set, the counters at 0.\<close>
  "batch_start w =
     \<lparr>allCredentials = [], processed = 0, errors = 0, apiExhausted = False,
      stoppedAfter = None, fetched = [], world = w\<rparr>"

fun join :: "string \<Rightarrow> string list \<Rightarrow> string" where
  \<comment> \<open>\<open>xs.join(sep)\<close>.\<close>
  "join sep [] = []"
| "join sep [x] = x"
| "join sep (x # y # r) = x @ sep @ join sep (y # r)"

definition generateCombolist ::
  "('w \<Rightarrow> (string + FileViewLimit option) \<times> 'w)
     \<Rightarrow> ('w \<Rightarrow> string \<Rightarrow> string \<Rightarrow> (string + string) \<times> 'w)
     \<Rightarrow> 'w \<Rightarrow> string \<Rightarrow> SearchRecord list \<Rightarrow> int option \<Rightarrow> outcome \<times> 'w BatchState" where
  \<comment> \<open>\<open>generateCombolist(searchTerm, results, limit)\<close> with \<open>results.records\<close> for \<open>records\<close>.
      \<open>Written name content\<close> is the call \<open>writeFile\<close> with the file \<open>name\<close> in the working
      directory; \<open>sort()\<close> with no comparison function orders strings by their code units.\<close>
  "generateCombolist getApiLimits getFilePreview w searchTerm records limit =
     (let domainName = domainPart searchTerm;
          recordsToProcess = (case limit of
                                None \<Rightarrow> records
                              | Some l \<Rightarrow> if l = 0 then records else slice records 0 l)
      in case getApiLimits w of
           (limits, w1) \<Rightarrow>
             (let st0 = batch_start w1;
                  noCredits =
                    (case limits of
                       Inl message \<Rightarrow> False
                     | Inr None \<Rightarrow> False
                     | Inr (Some fileViewLimit) \<Rightarrow>
                         (case CreditMax fileViewLimit of
                            None \<Rightarrow> False
                          | Some m \<Rightarrow>
                              m > 0 \<and> (case Credit fileViewLimit of None \<Rightarrow> 0 | Some c \<Rightarrow> c) = 0))
              in if noCredits then (NoCredits, st0)
                 else
                   (let st = combolist_loop getFilePreview domainName recordsToProcess st0;
                        credentialsArray = sort (allCredentials st)
                    in if length credentialsArray = 0 then (NothingFound, st)
                       else (Written (domainName @ ''.txt'')
                               (join [CHR 0x0A] credentialsArray @ [CHR 0x0A]), st))))"

definition ci_equal :: "string \<Rightarrow> string \<Rightarrow> bool" where
  \<comment> \<open>Equal up to the case folding of the \<open>i\<close> flag.\<close>
  "ci_equal a b \<longleftrightarrow> map canonicalize a = map canonicalize b"

definition triple_match :: "char \<Rightarrow> string \<Rightarrow> string \<Rightarrow> string \<Rightarrow> string \<Rightarrow> string \<Rightarrow> bool" where
  \<comment> \<open>What a match of \<open>DOMAIN(?:/[^d]*)?d([^d\s]+)d([^d\s\n]+)\<close> at the start of \<open>s\<close> is, in
      the words of the specification: the domain up to case, an optional path that
      starts with \<open>/\<close> and has no delimiter, the delimiter, a non-empty user name without
      delimiter or whitespace, the delimiter, and a password that is a maximal non-empty
      run without delimiter or whitespace; \<open>rest\<close> is the text after the match.\<close>
  "triple_match d domain s u p rest \<longleftrightarrow>
     (\<exists>dom path. s = dom @ path @ d # u @ d # p @ rest
        \<and> ci_equal dom domain
        \<and> (path = [] \<or> (\<exists>q. path = CHR ''/'' # q \<and> d \<notin> set q))
        \<and> u \<noteq> [] \<and> list_all (\<lambda>x. x \<noteq> d \<and> \<not> isSpace x) u
        \<and> p \<noteq> [] \<and> list_all (\<lambda>x. x \<noteq> d \<and> \<not> isSpace x) p
        \<and> (case rest of [] \<Rightarrow> True | x # _ \<Rightarrow> x = d \<or> isSpace x))"

definition good_capture :: "string \<times> string \<Rightarrow> bool" where
  \<comment> \<open>Both captures are non-empty and free of whitespace.\<close>
  "good_capture m \<longleftrightarrow> fst m \<noteq> [] \<and> snd m \<noteq> []
     \<and> (\<forall>x\<in>set (fst m). \<not> isSpace x) \<and> (\<forall>x\<in>set (snd m). \<not> isSpace x)"

fun fetch_all ::
  "('w \<Rightarrow> string \<Rightarrow> string \<Rightarrow> (string + string) \<times> 'w) \<Rightarrow> 'w \<Rightarrow> SearchRecord list
     \<Rightarrow> (string + string) list" where
  \<comment> \<open>The results \<open>getFilePreview\<close> gives for the records, fetched one after the other
      from the world \<open>w\<close>.\<close>
  "fetch_all getFilePreview w [] = []"
| "fetch_all getFilePreview w (record # rest) =
     (case getFilePreview w (storageid record) (bucket record) of
        (result, w') \<Rightarrow> result # fetch_all getFilePreview w' rest)"

definition is_quota :: "string + string \<Rightarrow> bool" where
  \<comment> \<open>The fetch failed and its message is a quota-exhaustion signal.\<close>
  "is_quota result = (case result of Inl message \<Rightarrow> isQuotaError message | Inr content \<Rightarrow> False)"

definition creds_of :: "string \<Rightarrow> (string + string) list \<Rightarrow> string set" where
  \<comment> \<open>The credentials of the contents that were fetched.\<close>
  "creds_of domainName results =
     (\<Union>content \<in> {c. Inr c \<in> set results}. set (extractCredentials content domainName))"

definition recordKey :: "SearchRecord \<Rightarrow> string \<times> string" where
  "recordKey record = (storageid record, bucket record)"

definition loop_result ::
  "'w BatchState \<Rightarrow> 'w BatchState \<Rightarrow> string \<Rightarrow> SearchRecord list \<Rightarrow> (string + string) list \<Rightarrow> bool" where
  \<comment> \<open>What the loop has added to the state \<open>st\<close> after the records \<open>rs\<close> gave the results \<open>res\<close>.\<close>
  "loop_result st st' dmn rs res \<longleftrightarrow>
     fetched st' = fetched st @ map recordKey rs
     \<and> processed st' = processed st + int (length rs)
     \<and> errors st' = errors st + int (length (filter isl res))
     \<and> set (allCredentials st') = set (allCredentials st) \<union> creds_of dmn res"

definition example_getFilePreview :: "nat \<Rightarrow> string \<Rightarrow> string \<Rightarrow> (string + string) \<times> nat" where
  \<comment> \<open>A collaborator for the examples: the world counts the calls; the record \<open>a\<close> has
      a preview with one credential, the record \<open>b\<close> fails with a server error, and
      every other record fails with the status 429.\<close>
  "example_getFilePreview w sid b =
     (if sid = ''a'' then Inr ''x.y:u:p''
      else if sid = ''b'' then Inl ''Get file preview failed: 500 Internal Server Error''
      else Inl ''Get file preview failed: 429 Too Many Requests'', w + 1)"







section \<open>Properties of the context matcher\<close>

declare findContextInFile_loop.simps [simp del]
declare split_on.simps [simp del]

lemma includes_str_iff: "includes_str s t \<longleftrightarrow> (\<exists>a b. s = a @ t @ b)"
proof (induction s)
  case Nil
  then show ?case by simp
next
  case (Cons c cs)
  show ?case
  proof
    assume "includes_str (c # cs) t"
    then consider "prefix t (c # cs)" | "includes_str cs t" by auto
    then show "\<exists>a b. c # cs = a @ t @ b"
    proof cases
      case 1
      then obtain b where "c # cs = t @ b" by (auto simp: prefix_def)
      then have "c # cs = [] @ t @ b" by simp
      then show ?thesis by blast
    next
      case 2
      with Cons.IH obtain a b where "cs = a @ t @ b" by blast
      then have "c # cs = (c # a) @ t @ b" by simp
      then show ?thesis by blast
    qed
  next
    assume "\<exists>a b. c # cs = a @ t @ b"
    then obtain a b where ab: "c # cs = a @ t @ b" by blast
    show "includes_str (c # cs) t"
    proof (cases a)
      case Nil
      with ab have "prefix t (c # cs)" by (simp add: prefix_def)
      then show ?thesis by simp
    next
      case (Cons x a')
      with ab have "cs = a' @ t @ b" by simp
      with Cons.IH have "includes_str cs t" by blast
      then show ?thesis by simp
    qed
  qed
qed

lemma includes_str_Nil: "includes_str s []"
  by (cases s) simp_all

lemma stringToCodePoints_plain:
  "\<forall>c\<in>set s. \<not> isLeadSurrogate c \<Longrightarrow> stringToCodePoints s = s"
  by (induction s rule: stringToCodePoints.induct) auto

lemma toLowercase_plain:
  "0x3A3 \<notin> set s \<Longrightarrow> 0x130 \<notin> set s \<Longrightarrow> toLowercase preceding s = map simpleLowercase s"
  by (induction s arbitrary: preceding) auto

lemma lowercaseRuns_bmp:
  "list_all (\<lambda>(lo, hi, step, lower). lo \<le> 0xFFFF \<longrightarrow> hi \<le> 0xFFFF \<and> lower + (hi - lo) \<le> 0xFFFF)
     lowercaseRuns"
  by code_simp

lemma find_SomeD: "find P xs = Some x \<Longrightarrow> x \<in> set xs \<and> P x"
  by (induction xs) (auto split: if_splits)

lemma simpleLowercase_bmp:
  assumes "c \<le> 0xFFFF"
  shows "simpleLowercase c \<le> 0xFFFF"
proof -
  define P :: "int \<times> int \<times> int \<times> int \<Rightarrow> bool"
    where "P = (\<lambda>(lo, hi, step, lower). lo \<le> c \<and> c \<le> hi \<and> (c - lo) mod step = 0)"
  define Q :: "int \<times> int \<times> int \<times> int \<Rightarrow> bool"
    where "Q = (\<lambda>(lo, hi, step, lower). lo \<le> 0xFFFF \<longrightarrow> hi \<le> 0xFFFF \<and> lower + (hi - lo) \<le> 0xFFFF)"
  have eq: "simpleLowercase c =
      (case find P lowercaseRuns of None \<Rightarrow> c | Some (lo, hi, step, lower) \<Rightarrow> lower + (c - lo))"
    unfolding simpleLowercase_def P_def ..
  have all: "\<forall>run\<in>set lowercaseRuns. Q run"
    using lowercaseRuns_bmp unfolding Q_def list_all_iff .
  show ?thesis
  proof (cases "find P lowercaseRuns")
    case None
    then show ?thesis
      unfolding eq using assms by simp
  next
    case (Some run)
    obtain lo hi step lower where run: "run = (lo, hi, step, lower)"
      by (metis prod.exhaust)
    from find_SomeD [OF Some] have "run \<in> set lowercaseRuns" "P run"
      by simp_all
    then have "Q run" "P run"
      using all by simp_all
    then have "lo \<le> c" "c \<le> hi" "lo \<le> 0xFFFF \<longrightarrow> hi \<le> 0xFFFF \<and> lower + (hi - lo) \<le> 0xFFFF"
      unfolding P_def Q_def run by simp_all
    with assms have "lower + (c - lo) \<le> 0xFFFF"
      by simp
    then show ?thesis
      unfolding eq Some run by simp
  qed
qed

lemma codePointsToString_bmp: "\<forall>c\<in>set s. c \<le> 0xFFFF \<Longrightarrow> codePointsToString s = s"
  by (induction s) (auto simp: codePointsToString_def utf16EncodeCodePoint_def)

lemma toLowerCase_plain:
  assumes "list_all plainUnit s"
  shows "toLowerCase s = map simpleLowercase s"
proof -
  have p: "\<forall>c\<in>set s. plainUnit c"
    using assms by (simp add: list_all_iff)
  then have 1: "stringToCodePoints s = s"
    by (intro stringToCodePoints_plain) (auto simp: plainUnit_def)
  have 2: "toLowercase [] s = map simpleLowercase s"
    using p by (intro toLowercase_plain) (auto simp: plainUnit_def)
  have "\<forall>c\<in>set (map simpleLowercase s). c \<le> 0xFFFF"
    using p by (auto simp: plainUnit_def intro: simpleLowercase_bmp)
  then have 3: "codePointsToString (map simpleLowercase s) = map simpleLowercase s"
    by (rule codePointsToString_bmp)
  show ?thesis
    by (simp add: toLowerCase_def 1 2 3)
qed

lemma toLowerCase_Nil: "toLowerCase [] = []"
  by (simp add: toLowerCase_def codePointsToString_def)

lemma stringToCodePoints_nonempty: "s \<noteq> [] \<Longrightarrow> stringToCodePoints s \<noteq> []"
  by (induction s rule: stringToCodePoints.induct) auto

lemma toLowercase_nonempty: "s \<noteq> [] \<Longrightarrow> toLowercase preceding s \<noteq> []"
  by (cases s) auto

lemma codePointsToString_nonempty: "s \<noteq> [] \<Longrightarrow> codePointsToString s \<noteq> []"
  by (cases s) (auto simp: codePointsToString_def utf16EncodeCodePoint_def)

lemma toLowerCase_nonempty: "s \<noteq> [] \<Longrightarrow> toLowerCase s \<noteq> []"
  unfolding toLowerCase_def
  by (intro codePointsToString_nonempty toLowercase_nonempty stringToCodePoints_nonempty)

lemma ci_substring_iff:
  "ci_substring line t \<longleftrightarrow> (\<exists>a u b. line = a @ u @ b \<and> toLowerCase u = toLowerCase t)"
proof -
  have "ci_substring line t \<longleftrightarrow> (\<exists>u. sublist u line \<and> toLowerCase u = toLowerCase t)"
    by (auto simp: ci_substring_def list_ex_iff)
  also have "\<dots> \<longleftrightarrow> (\<exists>a u b. line = a @ u @ b \<and> toLowerCase u = toLowerCase t)"
    unfolding sublist_def by blast
  finally show ?thesis .
qed

lemma includes_toLowerCase_plain:
  assumes line: "list_all plainUnit line" and t: "list_all plainUnit t"
  shows "includes_str (toLowerCase line) (toLowerCase t) \<longleftrightarrow> ci_substring line t"
proof
  assume "includes_str (toLowerCase line) (toLowerCase t)"
  then obtain a' b' where "map simpleLowercase line = a' @ map simpleLowercase t @ b'"
    unfolding includes_str_iff toLowerCase_plain [OF line] toLowerCase_plain [OF t] by blast
  then obtain a r where r: "line = a @ r" "map simpleLowercase r = map simpleLowercase t @ b'"
    by (metis map_eq_append_conv)
  then obtain u b where u: "r = u @ b" "map simpleLowercase u = map simpleLowercase t"
    by (metis map_eq_append_conv)
  have "list_all plainUnit u"
    using line r(1) u(1) by simp
  then have "toLowerCase u = toLowerCase t"
    using u(2) by (simp add: toLowerCase_plain t)
  with r(1) u(1) show "ci_substring line t"
    unfolding ci_substring_iff by blast
next
  assume "ci_substring line t"
  then obtain a u b where l: "line = a @ u @ b" and eq: "toLowerCase u = toLowerCase t"
    unfolding ci_substring_iff by blast
  have u: "list_all plainUnit u"
    using line l by simp
  have "map simpleLowercase line = map simpleLowercase a @ map simpleLowercase u @ map simpleLowercase b"
    by (simp add: l)
  also have "map simpleLowercase u = toLowerCase t"
    using eq by (simp add: toLowerCase_plain u)
  finally have "toLowerCase line = map simpleLowercase a @ toLowerCase t @ map simpleLowercase b"
    by (simp add: toLowerCase_plain line)
  then show "includes_str (toLowerCase line) (toLowerCase t)"
    unfolding includes_str_iff by blast
qed

lemma findContextInFile_loop_eq:
  "findContextInFile_loop lines searchLower k i matches =
     matches @ map (windowAt lines k)
       (filter (\<lambda>j. includes_str (toLowerCase (lines ! j)) searchLower) [i..<length lines])"
proof (induction lines searchLower k i matches rule: findContextInFile_loop.induct)
  case (1 lines searchLower k i matches)
  show ?case
  proof (cases "i < length lines")
    case False
    then show ?thesis by (simp add: findContextInFile_loop.simps [of lines searchLower k i matches])
  next
    case True
    then have upt: "[i..<length lines] = i # [i + 1..<length lines]"
      by (simp add: upt_conv_Cons)
    show ?thesis
    proof (cases "includes_str (toLowerCase (lines ! i)) searchLower")
      case hit: True
      have "findContextInFile_loop lines searchLower k i matches =
              findContextInFile_loop lines searchLower k (i + 1) (matches @ [windowAt lines k i])"
        using True hit
        by (simp add: findContextInFile_loop.simps [of lines searchLower k i matches] windowAt_def Let_def)
      also have "\<dots> = (matches @ [windowAt lines k i]) @ map (windowAt lines k)
          (filter (\<lambda>j. includes_str (toLowerCase (lines ! j)) searchLower) [i + 1..<length lines])"
        using "1.IH"(1) [OF True hit refl refl refl] by (simp add: windowAt_def)
      finally show ?thesis using hit upt by simp
    next
      case miss: False
      have "findContextInFile_loop lines searchLower k i matches =
              findContextInFile_loop lines searchLower k (i + 1) matches"
        using True miss
        by (simp add: findContextInFile_loop.simps [of lines searchLower k i matches])
      also have "\<dots> = matches @ map (windowAt lines k)
          (filter (\<lambda>j. includes_str (toLowerCase (lines ! j)) searchLower) [i + 1..<length lines])"
        using "1.IH"(2) [OF True miss] .
      finally show ?thesis using miss upt by simp
    qed
  qed
qed

lemma findContextInFile_eq:
  "findContextInFile content searchTerm k =
     map (windowAt (split_on 0x0A content) k)
       (filter (\<lambda>i. includes_str (toLowerCase (split_on 0x0A content ! i)) (toLowerCase searchTerm))
          [0..<length (split_on 0x0A content)])"
  by (simp add: findContextInFile_def findContextInFile_loop_eq Let_def)

lemma windowAt_lineNumber: "lineNumber (windowAt lines k i) = int i + 1"
  by (simp add: windowAt_def)

lemma windowAt_props:
  assumes k: "0 \<le> k" and i: "i < length lines"
  shows "0 \<le> matchLine (windowAt lines k i)"
    and "matchLine (windowAt lines k i) < int (length (windowContext (windowAt lines k i)))"
    and "windowContext (windowAt lines k i) ! nat (matchLine (windowAt lines k i)) = lines ! i"
proof -
  define start where "start = max 0 (int i - k)"
  define stop where "stop = min (int (length lines)) (int i + k + 1)"
  have s: "0 \<le> start" "start \<le> int i" using k by (auto simp: start_def)
  have e: "int i < stop" "stop \<le> int (length lines)" using k i by (auto simp: stop_def)
  have "slice lines start stop = take (nat (stop - start)) (drop (nat start) lines)"
    using s e i by (simp add: slice_def Let_def)
  then have ctx: "windowContext (windowAt lines k i) = take (nat (stop - start)) (drop (nat start) lines)"
    by (simp add: windowAt_def start_def stop_def)
  have ml: "matchLine (windowAt lines k i) = int i - start"
    by (simp add: windowAt_def start_def)
  show "0 \<le> matchLine (windowAt lines k i)" using s ml by simp
  have len: "length (windowContext (windowAt lines k i)) = nat (stop - start)"
    using s e by (simp add: ctx)
  show "matchLine (windowAt lines k i) < int (length (windowContext (windowAt lines k i)))"
    using s e by (simp add: len ml)
  have "nat (int i - start) < nat (stop - start)" using s e by simp
  moreover have "nat start + nat (int i - start) = i" using s by simp
  ultimately show "windowContext (windowAt lines k i) ! nat (matchLine (windowAt lines k i)) = lines ! i"
    using s e by (simp add: ctx ml)
qed

lemma split_on_nonempty: "split_on c s \<noteq> []"
  by (simp add: split_on.simps [of c s] split: list.splits)

lemma split_on_Nil: "split_on c [] = [[]]"
  by (simp add: split_on.simps [of c "[]"])

lemma split_on_subset: "l \<in> set (split_on c s) \<Longrightarrow> set l \<subseteq> set s"
proof (induction c s rule: split_on.induct)
  case (1 c s)
  show ?case
  proof (cases "dropWhile (\<lambda>x. x \<noteq> c) s")
    case Nil
    have "split_on c s = [takeWhile (\<lambda>x. x \<noteq> c) s]"
      by (subst split_on.simps) (simp only: Nil list.case)
    with "1.prems" show ?thesis
      by (auto dest: set_takeWhileD)
  next
    case (Cons x r)
    have eq: "split_on c s = takeWhile (\<lambda>x. x \<noteq> c) s # split_on c r"
      by (subst split_on.simps) (simp only: Cons list.case)
    have "set r \<subseteq> set s"
      using set_dropWhileD [of _ "\<lambda>x. x \<noteq> c" s] unfolding Cons by auto
    with "1.prems" "1.IH" [OF Cons] show ?thesis
      unfolding eq by (auto dest: set_takeWhileD)
  qed
qed

lemma split_on_plain:
  assumes "list_all plainUnit content" "i < length (split_on c content)"
  shows "list_all plainUnit (split_on c content ! i)"
proof -
  have "split_on c content ! i \<in> set (split_on c content)"
    using assms(2) by simp
  then have "set (split_on c content ! i) \<subseteq> set content"
    by (rule split_on_subset)
  with assms(1) show ?thesis
    by (auto simp: list_all_iff)
qed

lemma ci_substring_Nil: "ci_substring line []"
  unfolding ci_substring_iff by (rule exI [of _ "[]"], rule exI [of _ "[]"], rule exI [of _ line]) simp

lemma plain_filter:
  assumes "list_all plainUnit content" "list_all plainUnit searchTerm"
  shows "filter (\<lambda>i. includes_str (toLowerCase (split_on c content ! i)) (toLowerCase searchTerm))
           [0..<length (split_on c content)] =
         filter (\<lambda>i. ci_substring (split_on c content ! i) searchTerm)
           [0..<length (split_on c content)]"
  using assms by (intro filter_cong refl includes_toLowerCase_plain split_on_plain) simp_all

lemma ex_ab:
  "map lineNumber (findContextInFile (codeUnitsOf ''ab\<newline>ab\<newline>'') (codeUnitsOf ''ab'') k) = [1, 2]"
proof -
  have s: "split_on 0x0A (codeUnitsOf ''ab\<newline>ab\<newline>'') = [codeUnitsOf ''ab'', codeUnitsOf ''ab'', []]"
    by code_simp
  have f: "filter (\<lambda>j. includes_str (toLowerCase ([codeUnitsOf ''ab'', codeUnitsOf ''ab'', []] ! j))
                (toLowerCase (codeUnitsOf ''ab'')))
             [0..<length [codeUnitsOf ''ab'', codeUnitsOf ''ab'', []]] = [0, 1]"
    by code_simp
  have "findContextInFile (codeUnitsOf ''ab\<newline>ab\<newline>'') (codeUnitsOf ''ab'') k =
          map (windowAt [codeUnitsOf ''ab'', codeUnitsOf ''ab'', []] k) [0, 1]"
    unfolding findContextInFile_eq s f ..
  then show ?thesis
    by (simp add: windowAt_lineNumber)
qed

text \<open>
  C3, as the code has it: the matcher returns one window per line whose lower-case
  form contains the lower-case form of the term, in file order, each built for its own
  line (\<^const>\<open>windowAt\<close>) and never merged with a neighbour; the text \<open>ab\nab\n\<close> with the
  term \<open>ab\<close> gives two windows, for the lines 1 and 2. When neither the text nor the
  term has a surrogate, \<open>U+0130\<close> or \<open>U+03A3\<close>, these lines are exactly the lines that contain
  the term as a case-insensitive substring.
\<close>

theorem findContextInFile_one_window_per_matching_line:
  "findContextInFile content searchTerm k =
     map (windowAt (split_on 0x0A content) k)
       (filter (\<lambda>i. includes_str (toLowerCase (split_on 0x0A content ! i)) (toLowerCase searchTerm))
          [0..<length (split_on 0x0A content)])
   \<and> map lineNumber (findContextInFile content searchTerm k) =
     map (\<lambda>i. int i + 1)
       (filter (\<lambda>i. includes_str (toLowerCase (split_on 0x0A content ! i)) (toLowerCase searchTerm))
          [0..<length (split_on 0x0A content)])
   \<and> (list_all plainUnit content \<and> list_all plainUnit searchTerm \<longrightarrow>
        findContextInFile content searchTerm k =
          map (windowAt (split_on 0x0A content) k)
            (filter (\<lambda>i. ci_substring (split_on 0x0A content ! i) searchTerm)
               [0..<length (split_on 0x0A content)]))
   \<and> map lineNumber (findContextInFile (codeUnitsOf ''ab\<newline>ab\<newline>'') (codeUnitsOf ''ab'') k) = [1, 2]"
proof (intro conjI impI)
  show "findContextInFile content searchTerm k =
     map (windowAt (split_on 0x0A content) k)
       (filter (\<lambda>i. includes_str (toLowerCase (split_on 0x0A content ! i)) (toLowerCase searchTerm))
          [0..<length (split_on 0x0A content)])"
    by (rule findContextInFile_eq)
  show "map lineNumber (findContextInFile content searchTerm k) =
     map (\<lambda>i. int i + 1)
       (filter (\<lambda>i. includes_str (toLowerCase (split_on 0x0A content ! i)) (toLowerCase searchTerm))
          [0..<length (split_on 0x0A content)])"
    by (simp add: findContextInFile_eq windowAt_lineNumber comp_def)
  show "findContextInFile content searchTerm k =
          map (windowAt (split_on 0x0A content) k)
            (filter (\<lambda>i. ci_substring (split_on 0x0A content ! i) searchTerm)
               [0..<length (split_on 0x0A content)])"
    if "list_all plainUnit content \<and> list_all plainUnit searchTerm"
    unfolding findContextInFile_eq using that by (simp add: plain_filter)
  show "map lineNumber (findContextInFile (codeUnitsOf ''ab\<newline>ab\<newline>'') (codeUnitsOf ''ab'') k) = [1, 2]"
    by (rule ex_ab)
qed

theorem findContextInFile_one_window_per_matching_line_witness:
  "list_all plainUnit (codeUnitsOf ''Ab\<newline>xaB\<newline>c'') \<and> list_all plainUnit (codeUnitsOf ''aB'')
   \<and> findContextInFile (codeUnitsOf ''Ab\<newline>xaB\<newline>c'') (codeUnitsOf ''aB'') 1 =
       map (windowAt (split_on 0x0A (codeUnitsOf ''Ab\<newline>xaB\<newline>c'')) 1)
         (filter (\<lambda>i. ci_substring (split_on 0x0A (codeUnitsOf ''Ab\<newline>xaB\<newline>c'') ! i) (codeUnitsOf ''aB''))
            [0..<length (split_on 0x0A (codeUnitsOf ''Ab\<newline>xaB\<newline>c''))])
   \<and> map lineNumber (findContextInFile (codeUnitsOf ''Ab\<newline>xaB\<newline>c'') (codeUnitsOf ''aB'') 1) = [1, 2]"
proof -
  have h1: "list_all plainUnit (codeUnitsOf ''Ab\<newline>xaB\<newline>c'')"
    by code_simp
  have h2: "list_all plainUnit (codeUnitsOf ''aB'')"
    by code_simp
  have n: "map lineNumber (findContextInFile (codeUnitsOf ''Ab\<newline>xaB\<newline>c'') (codeUnitsOf ''aB'') 1) = [1, 2]"
    by code_simp
  note t = findContextInFile_one_window_per_matching_line
    [of "codeUnitsOf ''Ab\<newline>xaB\<newline>c''" "codeUnitsOf ''aB''" 1]
  show ?thesis
    using h1 h2 n t [THEN conjunct2, THEN conjunct2, THEN conjunct1, rule_format, OF conjI [OF h1 h2]]
    by (intro conjI)
qed

text \<open>
  C3 as stated fails on a line that holds the term itself: the capital sigma at the
  end of the word \<open>U+0391 U+03A3\<close> becomes the final sigma \<open>U+03C2\<close>, the capital sigma alone
  becomes \<open>U+03C3\<close>, and the matcher returns no window.
\<close>

theorem findContextInFile_final_sigma_counterexample:
  "[0x3A3] \<noteq> ([] :: codeUnit list)
   \<and> includes_str [0x391, 0x3A3] [0x3A3 :: codeUnit]
   \<and> ci_substring [0x391, 0x3A3] [0x3A3]
   \<and> toLowerCase [0x391, 0x3A3] = [0x3B1, 0x3C2] \<and> toLowerCase [0x3A3] = [0x3C3]
   \<and> findContextInFile [0x391, 0x3A3] [0x3A3] 5 = []"
  by code_simp

text \<open>
  C4, as the code has it: an empty file text gives no window when the search term is
  not empty; an empty search term is contained in every line, so the matcher then
  returns one window per line of the text, which is never the empty sequence.
\<close>

theorem findContextInFile_empty_arguments:
  assumes "searchTerm \<noteq> []"
  shows "findContextInFile [] searchTerm k = []
    \<and> length (findContextInFile content [] k) = length (split_on 0x0A content)
    \<and> findContextInFile content [] k \<noteq> []"
proof -
  have "toLowerCase searchTerm \<noteq> []"
    using assms by (rule toLowerCase_nonempty)
  then have "findContextInFile [] searchTerm k = []"
    by (simp add: findContextInFile_eq split_on_Nil toLowerCase_Nil)
  moreover have len: "length (findContextInFile content [] k) = length (split_on 0x0A content)"
    by (simp add: findContextInFile_eq toLowerCase_Nil includes_str_Nil)
  moreover have "findContextInFile content [] k \<noteq> []"
    using len split_on_nonempty [of "0x0A" content] by (metis length_0_conv)
  ultimately show ?thesis by blast
qed

theorem findContextInFile_empty_arguments_witness:
  "codeUnitsOf ''a'' \<noteq> [] \<and> findContextInFile [] (codeUnitsOf ''a'') 5 = []
    \<and> length (findContextInFile (codeUnitsOf ''x\<newline>y'') [] 5) = length (split_on 0x0A (codeUnitsOf ''x\<newline>y''))
    \<and> findContextInFile (codeUnitsOf ''x\<newline>y'') [] 5 \<noteq> []"
proof -
  have h: "codeUnitsOf ''a'' \<noteq> []" by (simp add: codeUnitsOf_def)
  show ?thesis
    using h findContextInFile_empty_arguments [OF h, of 5 "codeUnitsOf ''x\<newline>y''"] by simp
qed

theorem findContextInFile_empty_term_counterexample:
  "findContextInFile (codeUnitsOf ''abc'') [] 5 =
     [\<lparr>lineNumber = 1, windowContext = [codeUnitsOf ''abc''], matchLine = 0\<rparr>]
   \<and> findContextInFile (codeUnitsOf ''abc'') [] 5 \<noteq> []"
  by code_simp

text \<open>
  C9, as the code has it: for a context size \<open>k \<ge> 0\<close>, every window the matcher returns
  has its match index inside its context, the context line at that index is line
  \<open>lineNumber\<close> of the text (counted from 1, the text split at newlines), and the
  lower-case form of that line contains the lower-case form of the search term. When
  neither the text nor the term has a surrogate, \<open>U+0130\<close> or \<open>U+03A3\<close>, that line contains
  the term as a case-insensitive substring.
\<close>

theorem findContextInFile_window_invariant:
  assumes "0 \<le> k" and "w \<in> set (findContextInFile content searchTerm k)"
  shows "0 \<le> matchLine w \<and> matchLine w < int (length (windowContext w))
    \<and> 1 \<le> lineNumber w \<and> lineNumber w \<le> int (length (split_on 0x0A content))
    \<and> windowContext w ! nat (matchLine w) = split_on 0x0A content ! nat (lineNumber w - 1)
    \<and> includes_str (toLowerCase (split_on 0x0A content ! nat (lineNumber w - 1))) (toLowerCase searchTerm)
    \<and> (list_all plainUnit content \<and> list_all plainUnit searchTerm \<longrightarrow>
         ci_substring (split_on 0x0A content ! nat (lineNumber w - 1)) searchTerm)"
proof -
  define lines where "lines = split_on 0x0A content"
  from assms(2) obtain i where i: "i < length lines"
      "includes_str (toLowerCase (lines ! i)) (toLowerCase searchTerm)"
    and w: "w = windowAt lines k i"
    unfolding findContextInFile_eq lines_def by auto
  have ln: "lineNumber w = int i + 1"
    by (simp add: w windowAt_lineNumber)
  then have n: "nat (lineNumber w - 1) = i" by simp
  have ci: "ci_substring (lines ! i) searchTerm"
    if "list_all plainUnit content \<and> list_all plainUnit searchTerm"
  proof -
    have "list_all plainUnit (lines ! i)"
      using that i(1) unfolding lines_def by (intro split_on_plain) simp_all
    then show ?thesis
      using that i(2) includes_toLowerCase_plain by blast
  qed
  show ?thesis
    using windowAt_props [OF assms(1) i(1)] i ln n ci unfolding w lines_def by simp
qed

theorem findContextInFile_window_invariant_witness:
  "(0::int) \<le> 1
   \<and> \<lparr>lineNumber = 2, windowContext = [codeUnitsOf ''x'', codeUnitsOf ''aB'', codeUnitsOf ''y''], matchLine = 1\<rparr>
        \<in> set (findContextInFile (codeUnitsOf ''x\<newline>aB\<newline>y\<newline>z'') (codeUnitsOf ''Ab'') 1)
   \<and> [codeUnitsOf ''x'', codeUnitsOf ''aB'', codeUnitsOf ''y''] ! nat 1 =
        split_on 0x0A (codeUnitsOf ''x\<newline>aB\<newline>y\<newline>z'') ! nat (2 - 1)
   \<and> list_all plainUnit (codeUnitsOf ''x\<newline>aB\<newline>y\<newline>z'') \<and> list_all plainUnit (codeUnitsOf ''Ab'')
   \<and> ci_substring (split_on 0x0A (codeUnitsOf ''x\<newline>aB\<newline>y\<newline>z'') ! nat (2 - 1)) (codeUnitsOf ''Ab'')"
proof -
  have h1: "(0::int) \<le> 1" by simp
  have h2: "\<lparr>lineNumber = 2, windowContext = [codeUnitsOf ''x'', codeUnitsOf ''aB'', codeUnitsOf ''y''],
        matchLine = 1\<rparr>
        \<in> set (findContextInFile (codeUnitsOf ''x\<newline>aB\<newline>y\<newline>z'') (codeUnitsOf ''Ab'') 1)"
    by code_simp
  have p: "list_all plainUnit (codeUnitsOf ''x\<newline>aB\<newline>y\<newline>z'')" "list_all plainUnit (codeUnitsOf ''Ab'')"
    by code_simp+
  show ?thesis
    using h1 h2 p findContextInFile_window_invariant [OF h1 h2] by simp
qed

text \<open>
  C9 as stated fails on a line with \<open>U+0130\<close>, whose lower-case form is the two code
  units \<open>U+0069 U+0307\<close>: for the term \<open>U+0307\<close> the matcher returns a window, and no
  substring of the line has the lower-case form of the term.
\<close>

theorem findContextInFile_dotted_I_counterexample:
  "(0::int) \<le> 5 \<and> [0x307] \<noteq> ([] :: codeUnit list)
   \<and> \<lparr>lineNumber = 1, windowContext = [[0x130]], matchLine = 0\<rparr>
        \<in> set (findContextInFile [0x130] [0x307] 5)
   \<and> split_on 0x0A [0x130 :: codeUnit] ! nat (1 - 1) = [0x130]
   \<and> toLowerCase [0x130] = [0x69, 0x307] \<and> toLowerCase [0x307] = [0x307]
   \<and> \<not> ci_substring [0x130] [0x307]"
  by code_simp


section \<open>Properties of the whitespace normalization\<close>

declare normalizeSpaces.simps [simp del]
declare stripAnsiCodes.simps [simp del]
declare split_ws.simps [simp del]

lemma normalizeSpaces_Nil: "normalizeSpaces [] = []"
  by (simp add: normalizeSpaces.simps [of "[]"])

lemma normalizeSpaces_long:
  "3 \<le> length (takeWhile isSpace s) \<Longrightarrow>
   normalizeSpaces s = ''   '' @ normalizeSpaces (dropWhile isSpace s)"
proof (cases s)
  case Nil
  assume "3 \<le> length (takeWhile isSpace s)"
  with Nil show ?thesis by simp
next
  case (Cons c cs)
  assume "3 \<le> length (takeWhile isSpace s)"
  then show ?thesis
    unfolding Cons
    by (subst normalizeSpaces.simps) (simp del: takeWhile.simps dropWhile.simps)
qed

lemma normalizeSpaces_short:
  "length (takeWhile isSpace (c # cs)) < 3 \<Longrightarrow>
   normalizeSpaces (c # cs) = c # normalizeSpaces cs"
  by (simp add: normalizeSpaces.simps [of "c # cs"])

lemma normalizeSpaces_leading_short:
  "length (takeWhile isSpace s) < 3 \<Longrightarrow>
   takeWhile isSpace (normalizeSpaces s) = takeWhile isSpace s"
proof (induction s)
  case Nil
  then show ?case by (simp add: normalizeSpaces_Nil)
next
  case (Cons c cs)
  from Cons.prems have "normalizeSpaces (c # cs) = c # normalizeSpaces cs"
    by (rule normalizeSpaces_short)
  with Cons show ?case by (cases "isSpace c") simp_all
qed


lemma runs_ok_Nil: "runs_ok []"
  by (simp add: runs_ok_def)

lemma runs_ok_Cons:
  "runs_ok (x # xs) \<longleftrightarrow> length (takeWhile isSpace (x # xs)) \<le> 3 \<and> runs_ok xs"
proof
  assume a: "runs_ok (x # xs)"
  then have "length (takeWhile isSpace (drop 0 (x # xs))) \<le> 3"
    unfolding runs_ok_def by blast
  moreover have "length (takeWhile isSpace (drop n xs)) \<le> 3" for n
    using a [unfolded runs_ok_def, rule_format, of "Suc n"] by simp
  ultimately show "length (takeWhile isSpace (x # xs)) \<le> 3 \<and> runs_ok xs"
    by (simp add: runs_ok_def)
next
  assume a: "length (takeWhile isSpace (x # xs)) \<le> 3 \<and> runs_ok xs"
  show "runs_ok (x # xs)"
    unfolding runs_ok_def
  proof
    fix n
    show "length (takeWhile isSpace (drop n (x # xs))) \<le> 3"
      using a by (cases n) (auto simp: runs_ok_def)
  qed
qed

lemma dropWhile_leading: "takeWhile isSpace (dropWhile isSpace s) = []"
  by (induction s) auto

lemma normalizeSpaces_runs_ok: "runs_ok (normalizeSpaces s)"
proof (induction s rule: normalizeSpaces.induct)
  case (1 s)
  show ?case
  proof (cases s)
    case Nil
    then show ?thesis by (simp add: normalizeSpaces_Nil runs_ok_Nil)
  next
    case (Cons c cs)
    show ?thesis
    proof (cases "3 \<le> length (takeWhile isSpace s)")
      case True
      let ?r = "dropWhile isSpace s"
      have lead: "takeWhile isSpace (normalizeSpaces ?r) = []"
        using normalizeSpaces_leading_short [of ?r] by (simp add: dropWhile_leading)
      have sp: "isSpace (CHR '' '')" by (simp add: isSpace_def)
      have "runs_ok (normalizeSpaces ?r)"
        using "1.IH"(1) [OF Cons True] .
      then show ?thesis
        using lead sp by (simp add: normalizeSpaces_long [OF True] runs_ok_Cons)
    next
      case False
      then have short: "length (takeWhile isSpace (c # cs)) < 3"
        using Cons by simp
      have eq: "normalizeSpaces s = c # normalizeSpaces cs"
        unfolding Cons using short by (rule normalizeSpaces_short)
      have "takeWhile isSpace (normalizeSpaces s) = takeWhile isSpace s"
        using short normalizeSpaces_leading_short [of s] Cons by simp
      then have "length (takeWhile isSpace (c # normalizeSpaces cs)) \<le> 3"
        using short eq Cons by simp
      moreover have "runs_ok (normalizeSpaces cs)"
        using "1.IH"(2) [OF Cons False] .
      ultimately show ?thesis
        by (simp add: eq runs_ok_Cons)
    qed
  qed
qed

lemma normalizeSpaces_idem: "normalizeSpaces (normalizeSpaces s) = normalizeSpaces s"
proof (induction s rule: normalizeSpaces.induct)
  case (1 s)
  show ?case
  proof (cases s)
    case Nil
    then show ?thesis by (simp add: normalizeSpaces_Nil)
  next
    case (Cons c cs)
    show ?thesis
    proof (cases "3 \<le> length (takeWhile isSpace s)")
      case True
      let ?r = "dropWhile isSpace s"
      have lead: "takeWhile isSpace (normalizeSpaces ?r) = []"
        using normalizeSpaces_leading_short [of ?r] by (simp add: dropWhile_leading)
      have sp: "isSpace (CHR '' '')" by (simp add: isSpace_def)
      have tw: "takeWhile isSpace (''   '' @ normalizeSpaces ?r) = ''   ''"
        using lead sp by simp
      have dw: "dropWhile isSpace (''   '' @ normalizeSpaces ?r) = normalizeSpaces ?r"
        using lead sp by (simp add: takeWhile_eq_Nil_iff dropWhile_eq_self_iff)
      have "normalizeSpaces (''   '' @ normalizeSpaces ?r) =
              ''   '' @ normalizeSpaces (dropWhile isSpace (''   '' @ normalizeSpaces ?r))"
        by (rule normalizeSpaces_long) (simp only: tw, simp)
      also have "\<dots> = ''   '' @ normalizeSpaces ?r"
        using "1.IH"(1) [OF Cons True] by (simp only: dw)
      finally show ?thesis
        by (simp only: normalizeSpaces_long [OF True])
    next
      case False
      then have short: "length (takeWhile isSpace (c # cs)) < 3"
        using Cons by simp
      have eq: "normalizeSpaces s = c # normalizeSpaces cs"
        unfolding Cons using short by (rule normalizeSpaces_short)
      have "takeWhile isSpace (normalizeSpaces s) = takeWhile isSpace s"
        using short normalizeSpaces_leading_short [of s] Cons by simp
      then have "length (takeWhile isSpace (c # normalizeSpaces cs)) < 3"
        using short eq Cons by simp
      then have "normalizeSpaces (c # normalizeSpaces cs) = c # normalizeSpaces (normalizeSpaces cs)"
        by (rule normalizeSpaces_short)
      then show ?thesis
        using "1.IH"(2) [OF Cons False] by (simp add: eq)
    qed
  qed
qed

lemma runs_ok_substring:
  assumes "runs_ok s" and "s = a @ r @ b" and "\<forall>c\<in>set r. isSpace c"
  shows "length r \<le> 3"
proof -
  have "drop (length a) s = r @ b" using assms(2) by simp
  then have "takeWhile isSpace (drop (length a) s) = r @ takeWhile isSpace b"
    using assms(3) by simp
  moreover have "length (takeWhile isSpace (drop (length a) s)) \<le> 3"
    using assms(1) unfolding runs_ok_def by blast
  ultimately show ?thesis by simp
qed

text \<open>
  C10: \<open>normalizeSpaces\<close> is idempotent, and its result has no run of more than 3
  whitespace characters: a substring of the result made of whitespace only has at
  most 3 characters.
\<close>

theorem normalizeSpaces_idempotent_and_bounded:
  "normalizeSpaces (normalizeSpaces s) = normalizeSpaces s
   \<and> (\<forall>a r b. normalizeSpaces s = a @ r @ b \<and> list_all isSpace r \<longrightarrow> length r \<le> 3)"
proof -
  have "length r \<le> 3" if "normalizeSpaces s = a @ r @ b" and "list_all isSpace r" for a r b
    using runs_ok_substring [OF normalizeSpaces_runs_ok that(1)] that(2)
    by (simp add: list_all_iff)
  then show ?thesis
    using normalizeSpaces_idem by blast
qed

theorem normalizeSpaces_idempotent_and_bounded_witness:
  "normalizeSpaces (normalizeSpaces ''a     b'') = normalizeSpaces ''a     b''
   \<and> normalizeSpaces ''a     b'' = ''a'' @ ''   '' @ ''b''
   \<and> list_all isSpace ''   '' \<and> length ''   '' \<le> 3"
proof -
  have h1: "normalizeSpaces ''a     b'' = ''a'' @ ''   '' @ ''b''" by code_simp
  have h2: "list_all isSpace ''   ''" by code_simp
  show ?thesis
    using h1 h2 normalizeSpaces_idempotent_and_bounded [of "''a     b''"] by blast
qed


section \<open>Properties of the text wrapper\<close>

lemma isAnsiParam_m: "\<not> isAnsiParam (CHR ''m'')"
  by (simp add: isAnsiParam_def less_eq_char_def)

lemma isAnsiParam_not_esc: "isAnsiParam c \<Longrightarrow> c \<noteq> CHR 0x1B"
  by (auto simp: isAnsiParam_def less_eq_char_def)

lemma isSpace_not_esc: "isSpace c \<Longrightarrow> c \<noteq> CHR 0x1B"
  by (auto simp: isSpace_def)

lemma isSpace_not_m: "isSpace c \<Longrightarrow> c \<noteq> CHR ''m''"
  by (auto simp: isSpace_def)

lemma ansi_match_iff:
  "ansi_match s = Some r \<longleftrightarrow>
     (\<exists>ps. s = CHR 0x1B # CHR ''['' # ps @ CHR ''m'' # r \<and> list_all isAnsiParam ps)"
proof
  assume "ansi_match s = Some r"
  then obtain t where s: "s = CHR 0x1B # CHR ''['' # t"
    and d: "dropWhile isAnsiParam t = CHR ''m'' # r"
    by (auto simp: ansi_match_def split: list.splits if_splits)
  have "t = takeWhile isAnsiParam t @ CHR ''m'' # r"
    using d by (metis takeWhile_dropWhile_id)
  moreover have "list_all isAnsiParam (takeWhile isAnsiParam t)"
    by (auto simp: list_all_iff dest: set_takeWhileD)
  ultimately show "\<exists>ps. s = CHR 0x1B # CHR ''['' # ps @ CHR ''m'' # r \<and> list_all isAnsiParam ps"
    using s by blast
next
  assume "\<exists>ps. s = CHR 0x1B # CHR ''['' # ps @ CHR ''m'' # r \<and> list_all isAnsiParam ps"
  then obtain ps where s: "s = CHR 0x1B # CHR ''['' # ps @ CHR ''m'' # r"
    and ps: "list_all isAnsiParam ps" by blast
  have "dropWhile isAnsiParam (ps @ CHR ''m'' # r) = CHR ''m'' # r"
    using ps isAnsiParam_m by (simp add: list_all_iff dropWhile_append3)
  then show "ansi_match s = Some r"
    by (simp add: s ansi_match_def)
qed

lemma ansi_match_not_esc: "c \<noteq> CHR 0x1B \<Longrightarrow> ansi_match (c # cs) = None"
  by (simp add: ansi_match_def split: list.splits)

lemma stripAnsiCodes_Nil: "stripAnsiCodes [] = []"
  by (simp add: stripAnsiCodes.simps [of "[]"])

lemma stripAnsiCodes_Some:
  assumes "ansi_match s = Some r"
  shows "stripAnsiCodes s = stripAnsiCodes r"
proof (cases s)
  case Nil
  with assms show ?thesis by (simp add: ansi_match_def)
next
  case (Cons c cs)
  with assms show ?thesis by (subst stripAnsiCodes.simps) simp
qed

lemma stripAnsiCodes_None:
  "ansi_match (c # cs) = None \<Longrightarrow> stripAnsiCodes (c # cs) = c # stripAnsiCodes cs"
  by (simp add: stripAnsiCodes.simps [of "c # cs"])

lemma stripAnsiCodes_plain_prefix:
  "CHR 0x1B \<notin> set p \<Longrightarrow> stripAnsiCodes (p @ r) = p @ stripAnsiCodes r"
proof (induction p)
  case Nil
  then show ?case by simp
next
  case (Cons c p)
  from Cons.prems have "c \<noteq> CHR 0x1B" by auto
  then have "ansi_match (c # p @ r) = None"
    by (rule ansi_match_not_esc)
  then have "stripAnsiCodes (c # p @ r) = c # stripAnsiCodes (p @ r)"
    by (rule stripAnsiCodes_None)
  with Cons show ?case by simp
qed

lemma ansi_match_append:
  "ansi_match x = Some u \<Longrightarrow> ansi_match (x @ y) = Some (u @ y)"
  unfolding ansi_match_iff by auto

lemma ansi_match_span:
  assumes "x \<noteq> []" and "ansi_match x = None" and "ansi_match (x @ y) = Some r"
  shows "\<exists>p. y = p @ r \<and> p \<noteq> [] \<and> CHR 0x1B \<notin> set p \<and> last p = CHR ''m''"
proof -
  from assms(3) obtain ps where xy: "x @ y = CHR 0x1B # CHR ''['' # ps @ CHR ''m'' # r"
    and ps: "list_all isAnsiParam ps"
    unfolding ansi_match_iff by blast
  define M where "M = CHR 0x1B # CHR ''['' # ps @ [CHR ''m'']"
  have xyM: "x @ y = M @ r" using xy by (simp add: M_def)
  then consider us where "x = M @ us" "us @ y = r" | us where "x @ us = M" "y = us @ r"
    by (auto simp: append_eq_append_conv2)
  then show ?thesis
  proof cases
    case 1
    then have "ansi_match x = Some us"
      unfolding ansi_match_iff M_def using ps by auto
    with assms(2) show ?thesis by simp
  next
    case 2
    have "us \<noteq> []"
    proof
      assume "us = []"
      with 2 have "x = M" by simp
      then have "ansi_match x = Some []"
        unfolding ansi_match_iff M_def using ps by auto
      with assms(2) show False by simp
    qed
    obtain x' where x: "x = CHR 0x1B # x'"
      using assms(1) 2(1) by (cases x) (auto simp: M_def)
    then have tl: "x' @ us = CHR ''['' # ps @ [CHR ''m'']"
      using 2(1) by (simp add: M_def)
    have "CHR 0x1B \<notin> set (CHR ''['' # ps @ [CHR ''m''])"
      using ps by (auto simp: list_all_iff dest: isAnsiParam_not_esc)
    then have "CHR 0x1B \<notin> set us"
      using tl by (metis Un_iff set_append)
    moreover have "last us = CHR ''m''"
      using tl \<open>us \<noteq> []\<close> by (metis last_appendR last_snoc append_Cons)
    ultimately show ?thesis
      using 2(2) \<open>us \<noteq> []\<close> by blast
  qed
qed

lemma visible_append_le:
  "length (stripAnsiCodes (x @ y)) \<le> length (stripAnsiCodes x) + length (stripAnsiCodes y)"
proof (induction x arbitrary: y rule: stripAnsiCodes.induct)
  case (1 s)
  show ?case
  proof (cases s)
    case Nil
    then show ?thesis by (simp add: stripAnsiCodes_Nil)
  next
    case (Cons c cs)
    show ?thesis
    proof (cases "ansi_match s")
      case (Some u)
      then have "stripAnsiCodes (s @ y) = stripAnsiCodes (u @ y)"
        by (simp add: ansi_match_append stripAnsiCodes_Some)
      moreover have "stripAnsiCodes s = stripAnsiCodes u"
        using Some by (rule stripAnsiCodes_Some)
      ultimately show ?thesis
        using "1.IH"(2) [OF Cons Some, of y] by simp
    next
      case None
      then have s: "stripAnsiCodes s = c # stripAnsiCodes cs"
        unfolding Cons by (rule stripAnsiCodes_None)
      show ?thesis
      proof (cases "ansi_match (s @ y)")
        case n2: None
        then have "stripAnsiCodes (s @ y) = c # stripAnsiCodes (cs @ y)"
          unfolding Cons by (simp add: stripAnsiCodes_None)
        then show ?thesis
          using "1.IH"(1) [OF Cons None, of y] s by simp
      next
        case (Some r)
        then obtain p where p: "y = p @ r" "CHR 0x1B \<notin> set p"
          using ansi_match_span [of s y r] None Cons by auto
        have "stripAnsiCodes (s @ y) = stripAnsiCodes r"
          using Some by (rule stripAnsiCodes_Some)
        moreover have "stripAnsiCodes y = p @ stripAnsiCodes r"
          using p by (simp add: stripAnsiCodes_plain_prefix)
        ultimately show ?thesis by simp
      qed
    qed
  qed
qed

lemma stripAnsiCodes_append_spaces:
  "list_all isSpace t \<Longrightarrow> stripAnsiCodes (x @ t) = stripAnsiCodes x @ t"
proof (induction x rule: stripAnsiCodes.induct)
  case (1 s)
  have noesc: "CHR 0x1B \<notin> set t"
    using "1.prems" by (auto simp: list_all_iff dest: isSpace_not_esc)
  show ?case
  proof (cases s)
    case Nil
    then show ?thesis
      using stripAnsiCodes_plain_prefix [OF noesc, of "[]"] by (simp add: stripAnsiCodes_Nil)
  next
    case (Cons c cs)
    show ?thesis
    proof (cases "ansi_match s")
      case (Some u)
      then have "stripAnsiCodes (s @ t) = stripAnsiCodes (u @ t)"
        by (simp add: ansi_match_append stripAnsiCodes_Some)
      moreover have "stripAnsiCodes s = stripAnsiCodes u"
        using Some by (rule stripAnsiCodes_Some)
      ultimately show ?thesis
        using "1.IH"(2) [OF Cons Some "1.prems"] by simp
    next
      case None
      have "ansi_match (s @ t) = None"
      proof (rule ccontr)
        assume "ansi_match (s @ t) \<noteq> None"
        then obtain r where "ansi_match (s @ t) = Some r" by auto
        then obtain p where "t = p @ r" "p \<noteq> []" "last p = CHR ''m''"
          using ansi_match_span [of s t r] None Cons by auto
        then have "CHR ''m'' \<in> set t"
          by (metis Un_iff last_in_set set_append)
        then show False
          using "1.prems" by (auto simp: list_all_iff dest: isSpace_not_m)
      qed
      then have "stripAnsiCodes (s @ t) = c # stripAnsiCodes (cs @ t)"
        unfolding Cons by (simp add: stripAnsiCodes_None)
      moreover have "stripAnsiCodes s = c # stripAnsiCodes cs"
        using None unfolding Cons by (rule stripAnsiCodes_None)
      ultimately show ?thesis
        using "1.IH"(1) [OF Cons None "1.prems"] by simp
    qed
  qed
qed

lemma trimEnd_decomp: "\<exists>t. s = trimEnd s @ t \<and> list_all isSpace t"
proof -
  have "rev s = takeWhile isSpace (rev s) @ dropWhile isSpace (rev s)" by simp
  then have "s = rev (dropWhile isSpace (rev s)) @ rev (takeWhile isSpace (rev s))"
    by (metis rev_append rev_rev_ident)
  moreover have "list_all isSpace (rev (takeWhile isSpace (rev s)))"
    by (auto simp: list_all_iff dest: set_takeWhileD)
  ultimately show ?thesis
    unfolding trimEnd_def by blast
qed

lemma visible_trimEnd_le: "length (stripAnsiCodes (trimEnd s)) \<le> length (stripAnsiCodes s)"
proof -
  obtain t where t: "s = trimEnd s @ t" "list_all isSpace t"
    using trimEnd_decomp by blast
  have "stripAnsiCodes (trimEnd s @ t) = stripAnsiCodes (trimEnd s) @ t"
    using t(2) by (rule stripAnsiCodes_append_spaces)
  with t(1) show ?thesis by (metis length_append le_add1)
qed

lemma trimEnd_word: "\<forall>c\<in>set p. \<not> isSpace c \<Longrightarrow> trimEnd p = p"
  by (cases "rev p") (auto simp: trimEnd_def)

lemma trimEnd_spaces: "\<forall>c\<in>set p. isSpace c \<Longrightarrow> trimEnd p = []"
  by (simp add: trimEnd_def)

lemma split_ws_parts:
  "p \<in> set (split_ws s) \<Longrightarrow> (\<forall>c\<in>set p. \<not> isSpace c) \<or> (\<forall>c\<in>set p. isSpace c)"
proof (induction s rule: split_ws.induct)
  case (1 s)
  define word where "word = takeWhile (\<lambda>c. \<not> isSpace c) s"
  define r where "r = dropWhile (\<lambda>c. \<not> isSpace c) s"
  have w: "\<forall>c\<in>set word. \<not> isSpace c"
    unfolding word_def by (auto dest: set_takeWhileD)
  show ?case
  proof (cases "r = []")
    case True
    then have "split_ws s = [word]"
      by (simp add: split_ws.simps [of s] word_def r_def)
    with "1.prems" w show ?thesis by simp
  next
    case False
    then have eq: "split_ws s = word # takeWhile isSpace r # split_ws (dropWhile isSpace r)"
      by (simp add: split_ws.simps [of s] word_def r_def Let_def)
    have sp: "\<forall>c\<in>set (takeWhile isSpace r). isSpace c"
      by (auto dest: set_takeWhileD)
    from "1.prems" eq consider "p = word" | "p = takeWhile isSpace r"
      | "p \<in> set (split_ws (dropWhile isSpace r))" by auto
    then show ?thesis
    proof cases
      case 1
      with w show ?thesis by simp
    next
      case 2
      with sp show ?thesis by simp
    next
      case 3
      then show ?thesis
        using "1.IH" [OF word_def r_def False] by (simp add: r_def)
    qed
  qed
qed

lemma flush_ok:
  assumes parts: "\<forall>p\<in>set parts. (\<forall>c\<in>set p. \<not> isSpace c) \<or> (\<forall>c\<in>set p. isSpace c)"
    and cur: "current_ok w parts cur" and ne: "cur \<noteq> []"
  shows "segment_ok w parts (trimEnd cur)"
proof (cases "int (length (stripAnsiCodes cur)) \<le> w")
  case True
  then have "int (length (stripAnsiCodes (trimEnd cur))) \<le> w"
    using visible_trimEnd_le [of cur] by linarith
  then show ?thesis by (simp add: segment_ok_def)
next
  case False
  with cur ne have mem: "cur \<in> set parts" and wide: "w < int (length (stripAnsiCodes cur))"
    by (auto simp: current_ok_def)
  from parts mem consider "\<forall>c\<in>set cur. \<not> isSpace c" | "\<forall>c\<in>set cur. isSpace c"
    by blast
  then show ?thesis
  proof cases
    case 1
    then have "trimEnd cur = cur" by (rule trimEnd_word)
    with mem wide show ?thesis
      unfolding segment_ok_def by (intro disjI2 bexI [of _ cur]) simp_all
  next
    case 2
    then have e: "trimEnd cur = []" by (rule trimEnd_spaces)
    show ?thesis
    proof (cases "0 \<le> w")
      case True
      then show ?thesis by (simp add: segment_ok_def e stripAnsiCodes_Nil)
    next
      case False
      with mem wide e show ?thesis
        unfolding segment_ok_def by (intro disjI2 bexI [of _ cur]) simp_all
    qed
  qed
qed

lemma part_current_ok: "part \<in> set parts \<Longrightarrow> current_ok w parts part"
  unfolding current_ok_def by auto

lemma wrapLine_loop_inv:
  assumes "\<forall>p\<in>set all. (\<forall>c\<in>set p. \<not> isSpace c) \<or> (\<forall>c\<in>set p. isSpace c)"
    and "set parts \<subseteq> set all"
    and "\<forall>seg\<in>set lines. segment_ok w all seg"
    and "current_ok w all cur"
    and "wrapLine_loop w parts lines cur = (lines', cur')"
  shows "(\<forall>seg\<in>set lines'. segment_ok w all seg) \<and> current_ok w all cur'"
  using assms(2-5)
proof (induction parts arbitrary: lines cur)
  case Nil
  then show ?case by simp
next
  case (Cons part parts)
  have part: "part \<in> set all" and sub: "set parts \<subseteq> set all"
    using Cons.prems(1) by auto
  show ?case
  proof (cases "int (length (stripAnsiCodes cur)) + int (length (stripAnsiCodes part)) > w \<and> length cur > 0")
    case True
    then have ne: "cur \<noteq> []" by auto
    have seg: "segment_ok w all (trimEnd cur)"
      using flush_ok [OF assms(1) Cons.prems(3) ne] .
    then have lines: "\<forall>seg\<in>set (lines @ [trimEnd cur]). segment_ok w all seg"
      using Cons.prems(2) by auto
    show ?thesis
    proof (cases "isColumnBreak part")
      case cb: True
      have "wrapLine_loop w parts (lines @ [trimEnd cur]) [] = (lines', cur')"
        using Cons.prems(4) True cb by (simp add: Let_def)
      moreover have "current_ok w all []" by (simp add: current_ok_def)
      ultimately show ?thesis
        using Cons.IH [OF sub lines] by blast
    next
      case cb: False
      have "wrapLine_loop w parts (lines @ [trimEnd cur]) part = (lines', cur')"
        using Cons.prems(4) True cb by (simp add: Let_def)
      then show ?thesis
        using Cons.IH [OF sub lines part_current_ok [OF part]] by blast
    qed
  next
    case False
    then have run: "wrapLine_loop w parts lines (cur @ part) = (lines', cur')"
      using Cons.prems(4) by (cases "cur = []") (simp_all add: Let_def)
    have "current_ok w all (cur @ part)"
    proof (cases "cur = []")
      case True
      then show ?thesis using part_current_ok [OF part] by simp
    next
      case ne: False
      with False have "int (length (stripAnsiCodes cur)) + int (length (stripAnsiCodes part)) \<le> w"
        by auto
      then have "int (length (stripAnsiCodes (cur @ part))) \<le> w"
        using visible_append_le [of cur part] by linarith
      then show ?thesis by (simp add: current_ok_def)
    qed
    then show ?thesis
      using Cons.IH [OF sub Cons.prems(2) _ run] by blast
  qed
qed

lemma wrapLine_segment_ok:
  assumes "seg \<in> set (wrapLine text w)"
  shows "segment_ok w (split_ws text) seg"
proof -
  obtain lines cur where run: "wrapLine_loop w (split_ws text) [] [] = (lines, cur)"
    by (cases "wrapLine_loop w (split_ws text) [] []") auto
  have parts: "\<forall>p\<in>set (split_ws text). (\<forall>c\<in>set p. \<not> isSpace c) \<or> (\<forall>c\<in>set p. isSpace c)"
    using split_ws_parts by blast
  have inv: "(\<forall>seg\<in>set lines. segment_ok w (split_ws text) seg) \<and> current_ok w (split_ws text) cur"
    by (rule wrapLine_loop_inv [OF parts subset_refl _ _ run]) (simp_all add: current_ok_def)
  show ?thesis
  proof (cases "seg \<in> set lines")
    case True
    with inv show ?thesis by blast
  next
    case False
    with assms run have t: "length (trim cur) > 0" and seg: "seg = trimEnd cur"
      by (auto simp: wrapLine_def split: if_splits)
    from t have "cur \<noteq> []" by (auto simp: trim_def trimEnd_def)
    then show ?thesis
      unfolding seg using flush_ok [OF parts] inv by blast
  qed
qed

text \<open>
  C6: every segment \<open>wrapLine\<close> produces has visible length (its length once the
  styling sequences are stripped) at most the width, or it is a single part of the
  split text that is itself wider than the width, emitted alone: with its trailing
  whitespace trimmed, which for a width that is not negative is the part unchanged.
\<close>

theorem wrapLine_segments_fit:
  assumes "seg \<in> set (wrapLine text maxWidth)"
  shows "int (length (stripAnsiCodes seg)) \<le> maxWidth \<or>
    (\<exists>p\<in>set (split_ws text). seg = trimEnd p \<and> maxWidth < int (length (stripAnsiCodes p))
       \<and> (0 \<le> maxWidth \<longrightarrow> seg = p))"
  using wrapLine_segment_ok [OF assms] unfolding segment_ok_def .

theorem wrapLine_segments_fit_witness:
  "''abcdefghijkl'' \<in> set (wrapLine ''abcdefghijkl x'' 5)
   \<and> (int (length (stripAnsiCodes ''abcdefghijkl'')) \<le> 5 \<or>
      (\<exists>p\<in>set (split_ws ''abcdefghijkl x''). ''abcdefghijkl'' = trimEnd p
          \<and> 5 < int (length (stripAnsiCodes p)) \<and> ((0::int) \<le> 5 \<longrightarrow> ''abcdefghijkl'' = p)))"
proof -
  have h: "''abcdefghijkl'' \<in> set (wrapLine ''abcdefghijkl x'' 5)" by code_simp
  show ?thesis
    using h wrapLine_segments_fit [OF h] by blast
qed


section \<open>Properties of the context lines of the preview\<close>

lemma normalizeSpaces_word:
  "\<forall>c\<in>set w. \<not> isSpace c \<Longrightarrow> normalizeSpaces (w @ r) = w @ normalizeSpaces r"
proof (induction w)
  case Nil
  then show ?case by simp
next
  case (Cons c w)
  then have "length (takeWhile isSpace (c # w @ r)) < 3" by simp
  then have "normalizeSpaces (c # w @ r) = c # normalizeSpaces (w @ r)"
    by (rule normalizeSpaces_short)
  with Cons show ?case by simp
qed

lemma normalizeSpaces_short_run:
  "length (takeWhile isSpace s) < 3 \<Longrightarrow>
   normalizeSpaces s = takeWhile isSpace s @ normalizeSpaces (dropWhile isSpace s)"
proof (induction s)
  case Nil
  then show ?case by simp
next
  case (Cons c cs)
  from Cons.prems have eq: "normalizeSpaces (c # cs) = c # normalizeSpaces cs"
    by (rule normalizeSpaces_short)
  show ?case
  proof (cases "isSpace c")
    case True
    with Cons.prems have "length (takeWhile isSpace cs) < 3" by simp
    with Cons.IH True eq show ?thesis by simp
  next
    case False
    with eq show ?thesis by simp
  qed
qed

lemma normalizeSpaces_run:
  "normalizeSpaces s = collapseRun (takeWhile isSpace s) @ normalizeSpaces (dropWhile isSpace s)"
proof (cases "3 \<le> length (takeWhile isSpace s)")
  case True
  moreover have "list_all isSpace (takeWhile isSpace s)"
    by (auto simp: list_all_iff dest: set_takeWhileD)
  ultimately show ?thesis
    by (simp add: normalizeSpaces_long collapseRun_def isColumnBreak_def)
next
  case False
  then show ?thesis
    by (simp add: normalizeSpaces_short_run collapseRun_def isColumnBreak_def)
qed

lemma collapseRun_word: "\<forall>c\<in>set w. \<not> isSpace c \<Longrightarrow> collapseRun w = w"
  by (cases w) (auto simp: collapseRun_def isColumnBreak_def)

lemma normalizeSpaces_split_ws:
  "normalizeSpaces s = concat (map collapseRun (split_ws s))"
proof (induction s rule: split_ws.induct)
  case (1 s)
  define word where "word = takeWhile (\<lambda>c. \<not> isSpace c) s"
  define r where "r = dropWhile (\<lambda>c. \<not> isSpace c) s"
  have w: "\<forall>c\<in>set word. \<not> isSpace c"
    unfolding word_def by (auto dest: set_takeWhileD)
  have s: "s = word @ r"
    by (simp add: word_def r_def)
  show ?case
  proof (cases "r = []")
    case True
    then have "split_ws s = [word]"
      by (simp add: split_ws.simps [of s] word_def r_def)
    moreover have "normalizeSpaces s = word"
      using normalizeSpaces_word [OF w, of "[]"] s True by (simp add: normalizeSpaces_Nil)
    ultimately show ?thesis
      using collapseRun_word [OF w] by simp
  next
    case False
    then have eq: "split_ws s = word # takeWhile isSpace r # split_ws (dropWhile isSpace r)"
      by (simp add: split_ws.simps [of s] word_def r_def Let_def)
    have "normalizeSpaces s = word @ normalizeSpaces r"
      using normalizeSpaces_word [OF w, of r] s by simp
    also have "normalizeSpaces r =
        collapseRun (takeWhile isSpace r) @ normalizeSpaces (dropWhile isSpace r)"
      by (rule normalizeSpaces_run)
    also have "normalizeSpaces (dropWhile isSpace r) =
        concat (map collapseRun (split_ws (dropWhile isSpace r)))"
      using "1.IH" [OF word_def r_def False] by (simp add: r_def)
    finally show ?thesis
      using collapseRun_word [OF w] by (simp add: eq)
  qed
qed

lemma concat_split_ws: "concat (split_ws s) = s"
proof (induction s rule: split_ws.induct)
  case (1 s)
  define word where "word = takeWhile (\<lambda>c. \<not> isSpace c) s"
  define r where "r = dropWhile (\<lambda>c. \<not> isSpace c) s"
  have s: "s = word @ r"
    by (simp add: word_def r_def)
  show ?case
  proof (cases "r = []")
    case True
    then have "split_ws s = [word]"
      by (simp add: split_ws.simps [of s] word_def r_def)
    with s True show ?thesis by simp
  next
    case False
    then have eq: "split_ws s = word # takeWhile isSpace r # split_ws (dropWhile isSpace r)"
      by (simp add: split_ws.simps [of s] word_def r_def Let_def)
    have "concat (split_ws (dropWhile isSpace r)) = dropWhile isSpace r"
      using "1.IH" [OF word_def r_def False] by (simp add: r_def)
    then have "concat (split_ws s) = word @ takeWhile isSpace r @ dropWhile isSpace r"
      by (simp add: eq)
    then show ?thesis using s by simp
  qed
qed

lemma visible_le_length: "length (stripAnsiCodes s) \<le> length s"
proof (induction s rule: stripAnsiCodes.induct)
  case (1 s)
  show ?case
  proof (cases s)
    case Nil
    then show ?thesis by (simp add: stripAnsiCodes_Nil)
  next
    case (Cons c cs)
    show ?thesis
    proof (cases "ansi_match s")
      case None
      then have "stripAnsiCodes s = c # stripAnsiCodes cs"
        unfolding Cons by (rule stripAnsiCodes_None)
      then show ?thesis
        using "1.IH"(1) [OF Cons None] Cons by simp
    next
      case (Some r)
      then have "stripAnsiCodes s = stripAnsiCodes r"
        by (rule stripAnsiCodes_Some)
      then show ?thesis
        using "1.IH"(2) [OF Cons Some] ansi_match_shorter [OF Some] by simp
    qed
  qed
qed

lemma substring_0: "substring s 0 b = take (nat b) s"
proof -
  have "take (nat (min (max b 0) (int (length s)))) s = take (nat b) s"
    by (cases "b \<le> int (length s)") (simp_all add: min_def max_def)
  then show ?thesis
    by (simp add: substring_def Let_def)
qed

lemma lastIndexOf_filter:
  "lastIndexOf s c =
     (let js = filter (\<lambda>j. s ! j = c) [0..<length s]
      in if js = [] then - 1 else int (last js))"
proof (induction s rule: rev_induct)
  case Nil
  then show ?case by (simp add: lastIndexOf_def)
next
  case (snoc x xs)
  have same: "filter (\<lambda>j. (xs @ [x]) ! j = c) [0..<length xs] = filter (\<lambda>j. xs ! j = c) [0..<length xs]"
    by (rule filter_cong) (auto simp: nth_append)
  show ?case
  proof (cases "x = c")
    case True
    then show ?thesis
      by (simp add: lastIndexOf_def Let_def)
  next
    case False
    then have "lastIndexOf (xs @ [x]) c = lastIndexOf xs c"
      by (simp add: lastIndexOf_def)
    with snoc False same show ?thesis
      by (simp add: Let_def)
  qed
qed

lemma lastIndexOf_take:
  "lastIndexOf (take t s) (CHR '' '') =
     (case lastSpaceBefore s t of None \<Rightarrow> - 1 | Some j \<Rightarrow> int j)"
proof -
  have "filter (\<lambda>j. take t s ! j = CHR '' '') [0..<length (take t s)] =
        filter (\<lambda>j. s ! j = CHR '' '') [0..<min t (length s)]"
    by (rule filter_cong) (auto simp: min.commute)
  then show ?thesis
    by (simp add: lastIndexOf_filter lastSpaceBefore_def Let_def)
qed

declare bitlen.simps [simp del]

lemma bitlen_bounds: "0 < p \<Longrightarrow> 2 ^ (bitlen p - 1) \<le> p \<and> p < 2 ^ bitlen p"
proof (induction p rule: bitlen.induct)
  case (1 n)
  from "1.prems" have b: "bitlen n = Suc (bitlen (n div 2))"
    by (simp add: bitlen.simps [of n])
  show ?case
  proof (cases "n div 2 = 0")
    case True
    with "1.prems" have "n = 1" by presburger
    then show ?thesis
      by (simp add: bitlen.simps [of 1] bitlen.simps [of 0])
  next
    case False
    with "1.prems" have pos: "0 < n div 2" by presburger
    then have ih: "2 ^ (bitlen (n div 2) - 1) \<le> n div 2" "n div 2 < 2 ^ bitlen (n div 2)"
      using "1.IH" "1.prems" by auto
    have bpos: "0 < bitlen (n div 2)"
      using pos by (simp add: bitlen.simps [of "n div 2"])
    then obtain c where c: "bitlen (n div 2) = Suc c"
      by (cases "bitlen (n div 2)") auto
    have "(2::int) ^ Suc c \<le> 2 * (n div 2)"
      using ih(1) by (simp add: c)
    also have "\<dots> \<le> n" by presburger
    finally have lo: "(2::int) ^ (bitlen n - 1) \<le> n"
      by (simp add: b c)
    have "n div 2 + 1 \<le> 2 ^ Suc c"
      using ih(2) by (simp add: c)
    then have "2 * (n div 2) + 2 \<le> 2 * 2 ^ Suc c" by simp
    moreover have "n < 2 * (n div 2) + 2" by presburger
    ultimately have "n < 2 ^ bitlen n"
      by (simp add: b c)
    with lo show ?thesis by simp
  qed
qed

lemma round53_error: "0 \<le> p \<Longrightarrow> \<bar>round53 p - p\<bar> * 2 ^ 53 \<le> p"
proof -
  assume p: "0 \<le> p"
  define k where "k = bitlen p - 53"
  show ?thesis
  proof (cases "k = 0")
    case True
    with p show ?thesis by (simp add: round53_def k_def Let_def)
  next
    case False
    then have kpos: "0 < k" by simp
    then have blen: "bitlen p = k + 53" by (simp add: k_def)
    then have "p \<noteq> 0" by (auto simp: bitlen.simps [of 0])
    with p have ppos: "0 < p" by simp
    have big: "(2::int) ^ (k + 52) \<le> p"
      using bitlen_bounds [OF ppos] by (simp add: blen add.commute)
    obtain h where h: "k = Suc h" using kpos by (cases k) auto
    define half :: int where "half = 2 ^ h"
    define q where "q = p div 2 ^ k"
    define r where "r = p mod 2 ^ k"
    have pk: "(2::int) ^ k = 2 * half" by (simp add: h half_def)
    have "p = p div 2 ^ k * 2 ^ k + p mod 2 ^ k"
      by (metis div_mult_mod_eq)
    then have dec: "p = q * (2 * half) + r"
      by (simp add: q_def r_def pk)
    have "0 \<le> p mod 2 ^ k" "p mod 2 ^ k < 2 ^ k"
      by simp_all
    then have r: "0 \<le> r" "r < 2 * half"
      by (simp_all add: r_def pk)
    define up where "up \<longleftrightarrow> r > half \<or> (r = half \<and> odd q)"
    have rd: "round53 p = (if up then q + 1 else q) * (2 * half)"
      using False
      by (simp add: round53_def k_def [symmetric] Let_def q_def r_def half_def h up_def)
    have err: "\<bar>round53 p - p\<bar> \<le> half"
    proof (cases up)
      case True
      then have "round53 p - p = 2 * half - r"
        using rd dec by (simp add: algebra_simps)
      moreover have "half \<le> r" using True by (auto simp: up_def)
      ultimately show ?thesis using r by simp
    next
      case False
      then have "round53 p - p = - r"
        using rd dec by (simp add: algebra_simps)
      moreover have "r \<le> half" using False by (auto simp: up_def)
      ultimately show ?thesis using r by simp
    qed
    have "half * 2 ^ 53 = (2::int) ^ (k + 52)"
      by (simp add: half_def h power_add)
    with big have "half * 2 ^ 53 \<le> p" by simp
    moreover have "\<bar>round53 p - p\<bar> * 2 ^ 53 \<le> half * 2 ^ 53"
      using err by (simp add: mult_right_mono)
    ultimately show ?thesis by linarith
  qed
qed

lemma times_0_7_pos:
  assumes a: "0 < a" "a < 2 ^ 49"
  shows "(7 * a < 10 * x \<longrightarrow> round53 (a * 6305039478318694) < x * 2 ^ 53)
    \<and> (10 * x < 7 * a \<longrightarrow> x * 2 ^ 53 < round53 (a * 6305039478318694))"
proof -
  define P where "P = a * 6305039478318694"
  define R where "R = round53 P"
  have "0 \<le> P" using a by (simp add: P_def)
  then have "\<bar>R - P\<bar> * 2 ^ 53 \<le> P"
    unfolding R_def by (rule round53_error)
  define D where "D = \<bar>R - P\<bar>"
  have e: "D * 9007199254740992 \<le> a * 6305039478318694"
    using \<open>\<bar>R - P\<bar> * 2 ^ 53 \<le> P\<close> by (simp add: D_def P_def)
  have a49: "a < 562949953421312" using a by simp
  have e1: "R - a * 6305039478318694 \<le> D"
    by (simp add: D_def P_def)
  have e2: "a * 6305039478318694 - R \<le> D"
    by (simp add: D_def P_def)
  have up: "R < x * 9007199254740992" if "7 * a < 10 * x"
    using that e e1 a(1) a49 by linarith
  have lo: "x * 9007199254740992 < R" if "10 * x < 7 * a"
    using that e e2 a(1) a49 by linarith
  show ?thesis
    using up lo by (simp add: R_def P_def)
qed

lemma gt_times_0_7_bounds:
  assumes "\<bar>m\<bar> < 2 ^ 49"
  shows "(7 * m < 10 * j \<longrightarrow> gt_times_0_7 j m) \<and> (gt_times_0_7 j m \<longrightarrow> 7 * m \<le> 10 * j)"
proof -
  consider "m = 0" | "0 < m" | "m < 0" by linarith
  then show ?thesis
  proof cases
    case 1
    then show ?thesis by (simp add: gt_times_0_7_def times_0_7_def)
  next
    case 2
    with assms have a: "0 < m" "m < 2 ^ 49" by auto
    have t: "times_0_7 m = round53 (m * 6305039478318694)"
      using 2 by (simp add: times_0_7_def)
    show ?thesis
      using times_0_7_pos [OF a, of j] unfolding gt_times_0_7_def t by linarith
  next
    case 3
    with assms have a: "0 < - m" "- m < 2 ^ 49" by auto
    have t: "times_0_7 m = - round53 (- m * 6305039478318694)"
      using 3 by (simp add: times_0_7_def)
    show ?thesis
      using times_0_7_pos [OF a, of "- j"] unfolding gt_times_0_7_def t by linarith
  qed
qed

lemma round53_nonneg: "0 \<le> p \<Longrightarrow> 0 \<le> round53 p"
proof -
  assume p: "0 \<le> p"
  define D where "D = \<bar>round53 p - p\<bar>"
  have "D * 9007199254740992 \<le> p"
    using round53_error [OF p] by (simp add: D_def)
  moreover have "p - round53 p \<le> D" by (simp add: D_def)
  ultimately show ?thesis using p by linarith
qed

lemma gt_times_0_7_minus_one: "gt_times_0_7 (- 1) m \<Longrightarrow> m < 0"
proof (rule ccontr)
  assume g: "gt_times_0_7 (- 1) m" and "\<not> m < 0"
  then have "0 \<le> m" by simp
  then have "0 \<le> times_0_7 m"
    by (simp add: times_0_7_def sgn_if round53_nonneg)
  with g show False by (simp add: gt_times_0_7_def)
qed

lemma contextLine_fits:
  assumes "int (length (stripAnsiCodes (normalizeSpaces (windowContext match ! i)))) \<le> W"
  shows "formatPreview_contextLine gray W match i =
    gray ('' '' @ padStart 6 (toString (lineNumber match - matchLine match + int i)) @ '': '')
      @ normalizeSpaces (windowContext match ! i) @ [CHR 0x0A]"
  using assms by (simp add: formatPreview_contextLine_def Let_def)

lemma contextLine_overflow:
  assumes "W < int (length (stripAnsiCodes (normalizeSpaces (windowContext match ! i))))"
  shows "formatPreview_contextLine gray W match i =
    gray ('' '' @ padStart 6 (toString (lineNumber match - matchLine match + int i)) @ '': '')
      @ take (case lastSpaceBefore (normalizeSpaces (windowContext match ! i)) (nat (W - 3)) of
                None \<Rightarrow> nat (W - 3)
              | Some j \<Rightarrow> if gt_times_0_7 (int j) W then j else nat (W - 3))
          (normalizeSpaces (windowContext match ! i))
      @ gray ''...'' @ [CHR 0x0A]"
proof -
  define n where "n = normalizeSpaces (windowContext match ! i)"
  define T where "T = nat (W - 3)"
  define lastSpace where "lastSpace = lastIndexOf (take T n) (CHR '' '')"
  define truncateAt where
    "truncateAt = (if gt_times_0_7 lastSpace W then lastSpace else W - 3)"
  have out: "formatPreview_contextLine gray W match i =
    gray ('' '' @ padStart 6 (toString (lineNumber match - matchLine match + int i)) @ '': '')
      @ take (nat truncateAt) n @ gray ''...'' @ [CHR 0x0A]"
    using assms
    by (simp add: formatPreview_contextLine_def Let_def substring_0 n_def T_def
        lastSpace_def truncateAt_def)
  have ls: "lastSpace = (case lastSpaceBefore n T of None \<Rightarrow> - 1 | Some j \<Rightarrow> int j)"
    unfolding lastSpace_def by (rule lastIndexOf_take)
  have "take (nat truncateAt) n =
        take (case lastSpaceBefore n T of None \<Rightarrow> T
              | Some j \<Rightarrow> if gt_times_0_7 (int j) W then j else T) n"
  proof (cases "lastSpaceBefore n T")
    case None
    then have m1: "lastSpace = - 1" using ls by simp
    show ?thesis
    proof (cases "gt_times_0_7 (- 1) W")
      case True
      then have "W < 0" by (rule gt_times_0_7_minus_one)
      then have "T = 0" by (simp add: T_def)
      with True None m1 show ?thesis by (simp add: truncateAt_def)
    next
      case False
      with None m1 show ?thesis by (simp add: truncateAt_def T_def)
    qed
  next
    case (Some j)
    then have "lastSpace = int j" using ls by simp
    with Some show ?thesis by (simp add: truncateAt_def T_def)
  qed
  with out show ?thesis
    unfolding n_def T_def by simp
qed

text \<open>
  C8, as the code has it. For a context line of a window: the line is normalized, each
  run of 3 or more whitespace characters becoming 3 spaces and every other part of the
  line staying as it is; when the visible length of the normalized line is at most
  the width \<open>W\<close> the line is shown whole after its gutter; otherwise it is cut and an
  ellipsis is appended. The cut is at the last space among the first \<open>W - 3\<close>
  characters when the index of that space exceeds the floating-point product
  \<open>W * 0.7\<close>, and at \<open>W - 3\<close> otherwise. The product test holds for every index above
  70 percent of the width and fails for every index below it; at exactly 70 percent
  the rounding of the product decides.
\<close>

theorem formatPreview_contextLine_layout:
  "(let n = normalizeSpaces (windowContext match ! i);
        pre = gray ('' '' @ padStart 6 (toString (lineNumber match - matchLine match + int i)) @ '': '');
        T = nat (W - 3)
    in n = concat (map collapseRun (split_ws (windowContext match ! i)))
       \<and> (int (length (stripAnsiCodes n)) \<le> W \<longrightarrow>
            formatPreview_contextLine gray W match i = pre @ n @ [CHR 0x0A])
       \<and> (W < int (length (stripAnsiCodes n)) \<longrightarrow>
            formatPreview_contextLine gray W match i =
              pre @ take (case lastSpaceBefore n T of
                            None \<Rightarrow> T
                          | Some j \<Rightarrow> if gt_times_0_7 (int j) W then j else T) n
                  @ gray ''...'' @ [CHR 0x0A]))
   \<and> (\<bar>W\<bar> < 2 ^ 49 \<longrightarrow>
        (7 * W < 10 * x \<longrightarrow> gt_times_0_7 x W) \<and> (gt_times_0_7 x W \<longrightarrow> 7 * W \<le> 10 * x))"
  unfolding Let_def
  using normalizeSpaces_split_ws contextLine_fits contextLine_overflow gt_times_0_7_bounds
  by blast

theorem formatPreview_contextLine_layout_witness:
  "formatPreview_contextLine (\<lambda>s. s) 20
      \<lparr>lineNumber = 7, windowContext = [''a     b'', ''m''], matchLine = 1\<rparr> 0
     = ''      6: a   b\<newline>''
   \<and> formatPreview_contextLine (\<lambda>s. s) 20
      \<lparr>lineNumber = 7, windowContext = [''hello      world this is a long line of text'', ''m''],
       matchLine = 1\<rparr> 0
     = ''      6: hello   world thi...\<newline>''
   \<and> gt_times_0_7 50 70"
proof -
  let ?m1 = "\<lparr>lineNumber = 7, windowContext = [''a     b'', ''m''], matchLine = 1\<rparr>"
  let ?m2 = "\<lparr>lineNumber = 7,
    windowContext = [''hello      world this is a long line of text'', ''m''], matchLine = 1\<rparr>"
  note t1 = formatPreview_contextLine_layout [of ?m1 0 "\<lambda>s. s" 20 50, unfolded Let_def]
  note t2 = formatPreview_contextLine_layout [of ?m2 0 "\<lambda>s. s" 20 50, unfolded Let_def]
  note t3 = formatPreview_contextLine_layout [of ?m1 0 "\<lambda>s. s" 70 50, unfolded Let_def]
  have h1: "int (length (stripAnsiCodes (normalizeSpaces (windowContext ?m1 ! 0)))) \<le> 20"
    by code_simp
  have h2: "20 < int (length (stripAnsiCodes (normalizeSpaces (windowContext ?m2 ! 0))))"
    by code_simp
  have h3: "\<bar>70\<bar> < (2::int) ^ 49" "7 * 70 < 10 * (50::int)"
    by simp_all
  have a: "formatPreview_contextLine (\<lambda>s. s) 20 ?m1 0 =
      ('' '' @ padStart 6 (toString (lineNumber ?m1 - matchLine ?m1 + int 0)) @ '': '')
        @ normalizeSpaces (windowContext ?m1 ! 0) @ [CHR 0x0A]"
    using t1 h1 by blast
  have a': "('' '' @ padStart 6 (toString (lineNumber ?m1 - matchLine ?m1 + int 0)) @ '': '')
        @ normalizeSpaces (windowContext ?m1 ! 0) @ [CHR 0x0A] = ''      6: a   b\<newline>''"
    by code_simp
  have b: "formatPreview_contextLine (\<lambda>s. s) 20 ?m2 0 =
      ('' '' @ padStart 6 (toString (lineNumber ?m2 - matchLine ?m2 + int 0)) @ '': '')
        @ take (case lastSpaceBefore (normalizeSpaces (windowContext ?m2 ! 0)) (nat (20 - 3)) of
                  None \<Rightarrow> nat (20 - 3)
                | Some j \<Rightarrow> if gt_times_0_7 (int j) 20 then j else nat (20 - 3))
            (normalizeSpaces (windowContext ?m2 ! 0))
        @ ''...'' @ [CHR 0x0A]"
    using t2 h2 by blast
  have b': "('' '' @ padStart 6 (toString (lineNumber ?m2 - matchLine ?m2 + int 0)) @ '': '')
        @ take (case lastSpaceBefore (normalizeSpaces (windowContext ?m2 ! 0)) (nat (20 - 3)) of
                  None \<Rightarrow> nat (20 - 3)
                | Some j \<Rightarrow> if gt_times_0_7 (int j) 20 then j else nat (20 - 3))
            (normalizeSpaces (windowContext ?m2 ! 0))
        @ ''...'' @ [CHR 0x0A] = ''      6: hello   world thi...\<newline>''"
    by code_simp
  have c: "gt_times_0_7 50 70"
    using t3 h3 by blast
  show ?thesis
    using a a' b b' c by simp
qed

text \<open>
  In a terminal of 100 columns the width is 90, and the product \<open>90 * 0.7\<close> is the
  double just below 63 (\<open>62.99999999999999\<close>): a last space at index 63, which is
  exactly 70 percent of the width and not beyond it, is taken as the cut, where a cut
  at the boundary 87 was claimed.
\<close>

theorem formatPreview_contextLine_threshold_counterexample:
  "maxLineWidth_of (Some 100) = 90
   \<and> lastSpaceBefore (replicate 63 (CHR ''a'') @ '' '' @ replicate 40 (CHR ''b'')) 87 = Some 63
   \<and> \<not> 7 * 90 < 10 * (63::int)
   \<and> formatPreview_contextLine (\<lambda>s. s) 90
        \<lparr>lineNumber = 7,
         windowContext = [replicate 63 (CHR ''a'') @ '' '' @ replicate 40 (CHR ''b''), ''m''],
         matchLine = 1\<rparr> 0
      = ''      6: '' @ replicate 63 (CHR ''a'') @ ''...\<newline>''
   \<and> formatPreview_contextLine (\<lambda>s. s) 90
        \<lparr>lineNumber = 7,
         windowContext = [replicate 63 (CHR ''a'') @ '' '' @ replicate 40 (CHR ''b''), ''m''],
         matchLine = 1\<rparr> 0
      \<noteq> ''      6: '' @ take 87 (replicate 63 (CHR ''a'') @ '' '' @ replicate 40 (CHR ''b'')) @ ''...\<newline>''"
  by code_simp


section \<open>Properties of the domain classifier\<close>

lemma hd_split_on: "hd (split_on c s) = takeWhile (\<lambda>x. x \<noteq> c) s"
  by (simp add: split_on.simps [of c s] split: list.splits)

lemma domainPart_eq: "domainPart s = takeWhile (\<lambda>x. x \<noteq> CHR ''/'') (stripProtocol s)"
  by (simp add: domainPart_def hd_split_on)

lemma isAlnumHyphen_dot: "\<not> isAlnumHyphen (CHR ''.'')"
  by (simp add: isAlnumHyphen_def isAlnum_def isAlpha_def less_eq_char_def)

lemma isDomain_iff:
  "isDomain s \<longleftrightarrow>
     (\<exists>c body tld rest. domainPart s = c # body @ CHR ''.'' # tld @ rest
        \<and> isAlnum c \<and> list_all isAlnumHyphen body \<and> 2 \<le> length tld \<and> list_all isAlpha tld)"
proof
  assume "isDomain s"
  then obtain c cs rest where d: "domainPart s = c # cs" and c: "isAlnum c"
    and dw: "dropWhile isAlnumHyphen cs = CHR ''.'' # rest"
    and tl: "2 \<le> length (takeWhile isAlpha rest)"
    by (auto simp: isDomain_def split: list.splits)
  have cs: "cs = takeWhile isAlnumHyphen cs @ CHR ''.'' # rest"
    using dw by (metis takeWhile_dropWhile_id)
  show "\<exists>c body tld rest. domainPart s = c # body @ CHR ''.'' # tld @ rest
        \<and> isAlnum c \<and> list_all isAlnumHyphen body \<and> 2 \<le> length tld \<and> list_all isAlpha tld"
  proof (intro exI conjI)
    show "domainPart s =
        c # takeWhile isAlnumHyphen cs @ CHR ''.'' # takeWhile isAlpha rest @ dropWhile isAlpha rest"
      using d cs by simp
    show "isAlnum c" by (rule c)
    show "list_all isAlnumHyphen (takeWhile isAlnumHyphen cs)"
      by (auto simp: list_all_iff dest: set_takeWhileD)
    show "2 \<le> length (takeWhile isAlpha rest)" by (rule tl)
    show "list_all isAlpha (takeWhile isAlpha rest)"
      by (auto simp: list_all_iff dest: set_takeWhileD)
  qed
next
  assume "\<exists>c body tld rest. domainPart s = c # body @ CHR ''.'' # tld @ rest
        \<and> isAlnum c \<and> list_all isAlnumHyphen body \<and> 2 \<le> length tld \<and> list_all isAlpha tld"
  then obtain c body tld rest where d: "domainPart s = c # body @ CHR ''.'' # tld @ rest"
    and c: "isAlnum c" and body: "list_all isAlnumHyphen body"
    and tld: "2 \<le> length tld" "list_all isAlpha tld" by blast
  have "dropWhile isAlnumHyphen (body @ CHR ''.'' # tld @ rest) = CHR ''.'' # tld @ rest"
    using body isAlnumHyphen_dot by (simp add: list_all_iff dropWhile_append3)
  moreover have "length tld \<le> length (takeWhile isAlpha (tld @ rest))"
    using tld(2) by (simp add: list_all_iff)
  ultimately show "isDomain s"
    using d c tld(1) by (simp add: isDomain_def)
qed

lemma split_on_pieces:
  assumes "\<forall>l\<in>set (split_on c s). P l"
  shows "P (takeWhile (\<lambda>x. x \<noteq> c) s)"
  using assms by (simp add: split_on.simps [of c s] split: list.splits)

lemma split_on_chars:
  "\<forall>l\<in>set (split_on c s). \<forall>x\<in>set l. Q x \<Longrightarrow> \<forall>x\<in>set s. x = c \<or> Q x"
proof (induction c s rule: split_on.induct)
  case (1 c s)
  show ?case
  proof (cases "dropWhile (\<lambda>x. x \<noteq> c) s")
    case Nil
    have "split_on c s = [takeWhile (\<lambda>x. x \<noteq> c) s]"
      by (subst split_on.simps) (simp only: Nil list.case)
    moreover have "takeWhile (\<lambda>x. x \<noteq> c) s = s"
      using Nil by simp
    ultimately show ?thesis using "1.prems" by simp
  next
    case (Cons y r)
    have eq: "split_on c s = takeWhile (\<lambda>x. x \<noteq> c) s # split_on c r"
      by (subst split_on.simps) (simp only: Cons list.case)
    have y: "y = c"
      using Cons hd_dropWhile [of "\<lambda>x. x \<noteq> c" s] by simp
    have s: "s = takeWhile (\<lambda>x. x \<noteq> c) s @ c # r"
      using Cons y by (metis takeWhile_dropWhile_id)
    have "\<forall>x\<in>set r. x = c \<or> Q x"
      using "1.IH" [OF Cons] "1.prems" eq by simp
    moreover have "\<forall>x\<in>set (takeWhile (\<lambda>x. x \<noteq> c) s). Q x"
      using "1.prems" eq by simp
    ultimately show ?thesis
      by (subst s) auto
  qed
qed

lemma domain_shape_isDomain:
  assumes "domain_shape (domainPart s)"
  shows "isDomain s"
proof -
  define host where "host = takeWhile (\<lambda>x. x \<noteq> CHR ''.'') (domainPart s)"
  from assms obtain y tld where dw: "dropWhile (\<lambda>x. x \<noteq> CHR ''.'') (domainPart s) = y # tld"
    and labels: "list_all (\<lambda>l. l \<noteq> [] \<and> list_all isAlnum l) (split_on (CHR ''-'') host)"
    and tld: "2 \<le> length tld" "list_all isAlpha tld"
    by (auto simp: domain_shape_def host_def split: list.splits)
  have y: "y = CHR ''.''"
    using dw hd_dropWhile [of "\<lambda>x. x \<noteq> CHR ''.''" "domainPart s"] by simp
  have d: "domainPart s = host @ CHR ''.'' # tld"
    unfolding host_def using dw y by (metis takeWhile_dropWhile_id)
  have first: "takeWhile (\<lambda>x. x \<noteq> CHR ''-'') host \<noteq> []
      \<and> list_all isAlnum (takeWhile (\<lambda>x. x \<noteq> CHR ''-'') host)"
    using labels split_on_pieces [of "CHR ''-''" host "\<lambda>l. l \<noteq> [] \<and> list_all isAlnum l"]
    by (simp add: list_all_iff)
  then obtain c body where host: "host = c # body"
    by (cases host) auto
  with first have c: "isAlnum c"
    by (auto split: if_splits)
  have "\<forall>l\<in>set (split_on (CHR ''-'') host). \<forall>x\<in>set l. isAlnum x"
    using labels by (simp add: list_all_iff)
  then have "\<forall>x\<in>set host. x = CHR ''-'' \<or> isAlnum x"
    by (rule split_on_chars)
  then have body: "list_all isAlnumHyphen body"
    using host by (auto simp: list_all_iff isAlnumHyphen_def)
  have "domainPart s = c # body @ CHR ''.'' # tld @ []"
    using d host by simp
  then show ?thesis
    unfolding isDomain_iff using c body tld by blast
qed


text \<open>
  C5, as the code has it. The classifier removes a leading \<open>http://\<close> or \<open>https://\<close> and
  everything from the first \<open>/\<close> on, and returns true if and only if what remains
  begins with a letter or digit, then any number of letters, digits and hyphens, then
  a dot, then at least 2 letters; whatever follows those letters is not looked at.
  Every string of the shape \<open>label(-label)*.tld\<close> is classified as a domain, and so are
  \<open>example.com\<close> and \<open>https://example.com/path\<close>; \<open>user@example.com\<close> and the UUID are not.
\<close>

theorem isDomain_prefix_shape:
  "domainPart s = takeWhile (\<lambda>x. x \<noteq> CHR ''/'') (stripProtocol s)
   \<and> (isDomain s \<longleftrightarrow>
        (\<exists>c body tld rest. domainPart s = c # body @ CHR ''.'' # tld @ rest
           \<and> isAlnum c \<and> list_all isAlnumHyphen body \<and> 2 \<le> length tld \<and> list_all isAlpha tld))
   \<and> (domain_shape (domainPart s) \<longrightarrow> isDomain s)
   \<and> isDomain ''example.com'' \<and> isDomain ''https://example.com/path''
   \<and> \<not> isDomain ''user@example.com''
   \<and> \<not> isDomain ''1d69f42e-3e31-46cc-a349-0870d07b3b61''"
proof -
  have ex: "isDomain ''example.com''" "isDomain ''https://example.com/path''"
    "\<not> isDomain ''user@example.com''" "\<not> isDomain ''1d69f42e-3e31-46cc-a349-0870d07b3b61''"
    by code_simp+
  show ?thesis
    using domainPart_eq [of s] isDomain_iff [of s] domain_shape_isDomain [of s] ex
    by blast
qed

theorem isDomain_prefix_shape_witness:
  "domain_shape (domainPart ''https://my-site.org/a'') \<and> isDomain ''https://my-site.org/a''"
proof -
  have h: "domain_shape (domainPart ''https://my-site.org/a'')" by code_simp
  show ?thesis
    using h isDomain_prefix_shape [of "''https://my-site.org/a''"] by blast
qed

text \<open>
  The pattern is not anchored at its end and lets hyphens stand anywhere after the
  first character: \<open>example.com1\<close> and \<open>a-.com\<close> are classified as domains, and neither
  has the shape \<open>label(-label)*.tld\<close> with a final segment of letters.
\<close>

theorem isDomain_shape_counterexample:
  "isDomain ''example.com1'' \<and> \<not> domain_shape (domainPart ''example.com1'')
   \<and> isDomain ''a-.com'' \<and> \<not> domain_shape (domainPart ''a-.com'')"
  by code_simp


section \<open>Properties of the credential extractor\<close>

declare pattern1_all.simps [simp del]
declare pattern2_all.simps [simp del]

lemma match_literal_iff:
  "match_literal p s = Some r \<longleftrightarrow> (\<exists>dom. s = dom @ r \<and> ci_equal dom p)"
proof (induction p s rule: match_literal.induct)
  case (1 s)
  then show ?case by (auto simp: ci_equal_def)
next
  case (2 p ps)
  then show ?case by (auto simp: ci_equal_def)
next
  case (3 p ps c cs)
  show ?case
  proof
    assume a: "match_literal (p # ps) (c # cs) = Some r"
    then have pc: "canonicalize p = canonicalize c" and "match_literal ps cs = Some r"
      by (auto split: if_splits)
    with 3 obtain dom where "cs = dom @ r" "ci_equal dom ps" by auto
    then have "c # cs = (c # dom) @ r \<and> ci_equal (c # dom) (p # ps)"
      using pc by (simp add: ci_equal_def)
    then show "\<exists>dom. c # cs = dom @ r \<and> ci_equal dom (p # ps)" by blast
  next
    assume "\<exists>dom. c # cs = dom @ r \<and> ci_equal dom (p # ps)"
    then obtain dom where d: "c # cs = dom @ r" "ci_equal dom (p # ps)" by blast
    then obtain dom' where dom: "dom = c # dom'"
      by (cases dom) (auto simp: ci_equal_def)
    with d have pc: "canonicalize p = canonicalize c" and "cs = dom' @ r" "ci_equal dom' ps"
      by (auto simp: ci_equal_def)
    with 3 have "match_literal ps cs = Some r" by auto
    with pc show "match_literal (p # ps) (c # cs) = Some r" by simp
  qed
qed

lemma expect_iff: "expect d r = Some r' \<longleftrightarrow> r = d # r'"
  by (auto simp: expect_def split: list.splits)

lemma expect_skip_path_iff:
  assumes "d \<noteq> CHR ''/''"
  shows "expect d (skip_path d r0) = Some r2 \<longleftrightarrow>
    (\<exists>path. r0 = path @ d # r2 \<and> (path = [] \<or> (\<exists>q. path = CHR ''/'' # q \<and> d \<notin> set q)))"
proof
  assume a: "expect d (skip_path d r0) = Some r2"
  show "\<exists>path. r0 = path @ d # r2 \<and> (path = [] \<or> (\<exists>q. path = CHR ''/'' # q \<and> d \<notin> set q))"
  proof (cases r0)
    case Nil
    with a show ?thesis by (simp add: skip_path_def expect_def)
  next
    case (Cons c cs)
    show ?thesis
    proof (cases "c = CHR ''/''")
      case True
      with a Cons have dw: "dropWhile (\<lambda>x. x \<noteq> d) cs = d # r2"
        by (simp add: skip_path_def expect_iff)
      then have "cs = takeWhile (\<lambda>x. x \<noteq> d) cs @ d # r2"
        by (metis takeWhile_dropWhile_id)
      then have "r0 = (CHR ''/'' # takeWhile (\<lambda>x. x \<noteq> d) cs) @ d # r2"
        using Cons True by simp
      moreover have "d \<notin> set (takeWhile (\<lambda>x. x \<noteq> d) cs)"
        by (auto dest: set_takeWhileD)
      ultimately show ?thesis by blast
    next
      case False
      with a Cons have "r0 = [] @ d # r2"
        by (simp add: skip_path_def expect_iff)
      then show ?thesis by blast
    qed
  qed
next
  assume "\<exists>path. r0 = path @ d # r2 \<and> (path = [] \<or> (\<exists>q. path = CHR ''/'' # q \<and> d \<notin> set q))"
  then consider "r0 = d # r2" | q where "r0 = CHR ''/'' # q @ d # r2" "d \<notin> set q"
    by auto
  then show "expect d (skip_path d r0) = Some r2"
  proof cases
    case 1
    with assms show ?thesis by (simp add: skip_path_def expect_def)
  next
    case 2
    from 2(2) have "\<forall>x\<in>set q. x \<noteq> d" by blast
    then have "dropWhile (\<lambda>x. x \<noteq> d) (q @ d # r2) = d # r2"
      by (simp add: dropWhile_append3)
    with 2 show ?thesis by (simp add: skip_path_def expect_def)
  qed
qed

lemma capture_run_iff:
  "capture_run d r = Some (u, r') \<longleftrightarrow>
     r = u @ r' \<and> u \<noteq> [] \<and> list_all (\<lambda>x. x \<noteq> d \<and> \<not> isSpace x) u
       \<and> (case r' of [] \<Rightarrow> True | x # _ \<Rightarrow> x = d \<or> isSpace x)"
proof
  assume "capture_run d r = Some (u, r')"
  then have u: "u = takeWhile (\<lambda>x. x \<noteq> d \<and> \<not> isSpace x) r" "u \<noteq> []"
    and r': "r' = dropWhile (\<lambda>x. x \<noteq> d \<and> \<not> isSpace x) r"
    by (auto simp: capture_run_def Let_def split: if_splits)
  have "case r' of [] \<Rightarrow> True | x # _ \<Rightarrow> x = d \<or> isSpace x"
  proof (cases r')
    case Nil
    then show ?thesis by simp
  next
    case (Cons x xs)
    then have "dropWhile (\<lambda>x. x \<noteq> d \<and> \<not> isSpace x) r \<noteq> []"
      using r' by simp
    then have "\<not> (hd (dropWhile (\<lambda>x. x \<noteq> d \<and> \<not> isSpace x) r) \<noteq> d
        \<and> \<not> isSpace (hd (dropWhile (\<lambda>x. x \<noteq> d \<and> \<not> isSpace x) r)))"
      by (rule hd_dropWhile)
    then show ?thesis
      unfolding r' [symmetric] Cons by simp
  qed
  moreover have "list_all (\<lambda>x. x \<noteq> d \<and> \<not> isSpace x) u"
    unfolding u(1) by (auto simp: list_all_iff dest: set_takeWhileD)
  ultimately show "r = u @ r' \<and> u \<noteq> [] \<and> list_all (\<lambda>x. x \<noteq> d \<and> \<not> isSpace x) u
       \<and> (case r' of [] \<Rightarrow> True | x # _ \<Rightarrow> x = d \<or> isSpace x)"
    using u r' by simp
next
  assume a: "r = u @ r' \<and> u \<noteq> [] \<and> list_all (\<lambda>x. x \<noteq> d \<and> \<not> isSpace x) u
       \<and> (case r' of [] \<Rightarrow> True | x # _ \<Rightarrow> x = d \<or> isSpace x)"
  then have all: "\<forall>x\<in>set u. x \<noteq> d \<and> \<not> isSpace x"
    by (simp add: list_all_iff)
  have stop: "takeWhile (\<lambda>x. x \<noteq> d \<and> \<not> isSpace x) r' = []"
    using a by (cases r') auto
  have "takeWhile (\<lambda>x. x \<noteq> d \<and> \<not> isSpace x) (u @ r') = u"
    using all stop by simp
  moreover have "dropWhile (\<lambda>x. x \<noteq> d \<and> \<not> isSpace x) (u @ r') = r'"
    using all stop by (simp add: takeWhile_eq_Nil_iff dropWhile_eq_self_iff)
  ultimately show "capture_run d r = Some (u, r')"
    using a by (simp add: capture_run_def)
qed

lemma triple_at_iff:
  assumes "d \<noteq> CHR ''/''"
  shows "triple_at d domain s = Some ((u, p), rest) \<longleftrightarrow> triple_match d domain s u p rest"
proof
  assume "triple_at d domain s = Some ((u, p), rest)"
  then obtain r0 r2 r3 r4 where
    f1: "match_literal domain s = Some r0" and f2: "expect d (skip_path d r0) = Some r2"
    and f3: "capture_run d r2 = Some (u, r3)" and f4: "expect d r3 = Some r4"
    and f5: "capture_run d r4 = Some (p, rest)"
    by (auto simp: triple_at_def split: option.splits)
  from f1 have a1: "\<exists>dom. s = dom @ r0 \<and> ci_equal dom domain"
    by (rule iffD1 [OF match_literal_iff])
  from f2 have a2: "\<exists>path. r0 = path @ d # r2 \<and> (path = [] \<or> (\<exists>q. path = CHR ''/'' # q \<and> d \<notin> set q))"
    by (rule iffD1 [OF expect_skip_path_iff [OF assms]])
  from f3 have c1: "r2 = u @ r3 \<and> u \<noteq> [] \<and> list_all (\<lambda>x. x \<noteq> d \<and> \<not> isSpace x) u"
    using iffD1 [OF capture_run_iff] by blast
  from f4 have e2: "r3 = d # r4"
    by (rule iffD1 [OF expect_iff])
  from f5 have c2: "r4 = p @ rest \<and> p \<noteq> [] \<and> list_all (\<lambda>x. x \<noteq> d \<and> \<not> isSpace x) p
      \<and> (case rest of [] \<Rightarrow> True | x # _ \<Rightarrow> x = d \<or> isSpace x)"
    by (rule iffD1 [OF capture_run_iff])
  from a1 a2 have "\<exists>dom path. s = dom @ r0 \<and> ci_equal dom domain \<and> r0 = path @ d # r2
      \<and> (path = [] \<or> (\<exists>q. path = CHR ''/'' # q \<and> d \<notin> set q))"
    by blast
  then obtain dom path where dp: "s = dom @ r0" "ci_equal dom domain"
    "r0 = path @ d # r2" "path = [] \<or> (\<exists>q. path = CHR ''/'' # q \<and> d \<notin> set q)"
    by blast
  have "s = dom @ path @ d # u @ d # p @ rest"
    using dp(1,3) c1 e2 c2 by simp
  with dp(2,4) c1 c2 have "s = dom @ path @ d # u @ d # p @ rest
        \<and> ci_equal dom domain
        \<and> (path = [] \<or> (\<exists>q. path = CHR ''/'' # q \<and> d \<notin> set q))
        \<and> u \<noteq> [] \<and> list_all (\<lambda>x. x \<noteq> d \<and> \<not> isSpace x) u
        \<and> p \<noteq> [] \<and> list_all (\<lambda>x. x \<noteq> d \<and> \<not> isSpace x) p
        \<and> (case rest of [] \<Rightarrow> True | x # _ \<Rightarrow> x = d \<or> isSpace x)"
    by blast
  then show "triple_match d domain s u p rest"
    unfolding triple_match_def by blast
next
  assume "triple_match d domain s u p rest"
  then obtain dom path where m: "s = dom @ path @ d # u @ d # p @ rest" "ci_equal dom domain"
    "path = [] \<or> (\<exists>q. path = CHR ''/'' # q \<and> d \<notin> set q)"
    "u \<noteq> []" "list_all (\<lambda>x. x \<noteq> d \<and> \<not> isSpace x) u"
    "p \<noteq> []" "list_all (\<lambda>x. x \<noteq> d \<and> \<not> isSpace x) p"
    "case rest of [] \<Rightarrow> True | x # _ \<Rightarrow> x = d \<or> isSpace x"
    unfolding triple_match_def by blast
  have 1: "match_literal domain s = Some (path @ d # u @ d # p @ rest)"
    unfolding match_literal_iff using m(1,2) by blast
  have 2: "expect d (skip_path d (path @ d # u @ d # p @ rest)) = Some (u @ d # p @ rest)"
    unfolding expect_skip_path_iff [OF assms] using m(3) by blast
  have 3: "capture_run d (u @ d # p @ rest) = Some (u, d # p @ rest)"
    unfolding capture_run_iff using m(4,5) by simp
  have 4: "expect d (d # p @ rest) = Some (p @ rest)"
    by (simp add: expect_iff)
  have 5: "capture_run d (p @ rest) = Some (p, rest)"
    unfolding capture_run_iff using m(6,7,8) by simp
  show "triple_at d domain s = Some ((u, p), rest)"
    by (simp add: triple_at_def 1 2 3 4 5)
qed

lemma triple_match_consumed:
  "triple_match d domain s u p rest \<Longrightarrow> \<exists>m. s = m @ rest"
  unfolding triple_match_def by (metis append.assoc append_Cons)

lemma pattern1_at_iff:
  "pattern1_at domain s = Some ((u, p), rest) \<longleftrightarrow> triple_match (CHR '':'') domain s u p rest"
  unfolding pattern1_at_def by (rule triple_at_iff) simp

lemma ci_equal_append: "ci_equal a b \<Longrightarrow> ci_equal c d \<Longrightarrow> ci_equal (a @ c) (b @ d)"
  by (simp add: ci_equal_def)

lemma match_protocol_sound:
  assumes "match_protocol s = Some r"
  shows "\<exists>proto. s = proto @ r \<and> (ci_equal proto ''http://'' \<or> ci_equal proto ''https://'')"
proof -
  from assms obtain r1 where r1: "match_literal ''http'' s = Some r1"
    by (auto simp: match_protocol_def split: option.splits)
  then obtain h where h: "s = h @ r1" "ci_equal h ''http''"
    unfolding match_literal_iff by blast
  from assms r1 consider c cs where "r1 = c # cs" "canonicalize c = canonicalize (CHR ''s'')"
      "match_literal ''://'' cs = Some r"
    | "match_literal ''://'' r1 = Some r"
    by (auto simp: match_protocol_def split: option.splits list.splits if_splits)
  then show ?thesis
  proof cases
    case 1
    from 1(3) obtain t where t: "cs = t @ r" "ci_equal t ''://''"
      unfolding match_literal_iff by blast
    have "ci_equal [c] ''s''" using 1(2) by (simp add: ci_equal_def)
    then have "ci_equal (h @ [c] @ t) (''http'' @ ''s'' @ ''://'')"
      using h(2) t(2) by (intro ci_equal_append)
    moreover have "s = (h @ [c] @ t) @ r" using h(1) 1(1) t(1) by simp
    ultimately show ?thesis by (metis append_Cons append_Nil)
  next
    case 2
    then obtain t where t: "r1 = t @ r" "ci_equal t ''://''"
      unfolding match_literal_iff by blast
    have "ci_equal (h @ t) (''http'' @ ''://'')"
      using h(2) t(2) by (intro ci_equal_append)
    moreover have "s = (h @ t) @ r" using h(1) t(1) by simp
    ultimately show ?thesis by (metis append_Cons append_Nil)
  qed
qed

lemma pattern2_at_sound:
  assumes "pattern2_at domain s = Some ((u, p), rest)"
  shows "\<exists>proto m. s = proto @ m
    \<and> (proto = [] \<or> ci_equal proto ''http://'' \<or> ci_equal proto ''https://'')
    \<and> triple_match (CHR ''|'') domain m u p rest"
proof -
  have iff: "triple_at (CHR ''|'') domain m = Some ((u, p), rest)
      \<longleftrightarrow> triple_match (CHR ''|'') domain m u p rest" for m
    by (rule triple_at_iff) simp
  from assms consider "triple_at (CHR ''|'') domain s = Some ((u, p), rest)"
    | r where "match_protocol s = Some r" "triple_at (CHR ''|'') domain r = Some ((u, p), rest)"
    by (auto simp: pattern2_at_def split: option.splits)
  then show ?thesis
  proof cases
    case 1
    then have "s = [] @ s \<and> triple_match (CHR ''|'') domain s u p rest"
      using iff by simp
    then show ?thesis by blast
  next
    case 2
    from 2(1) obtain proto where "s = proto @ r"
      "ci_equal proto ''http://'' \<or> ci_equal proto ''https://''"
      using match_protocol_sound by blast
    moreover from 2(2) have "triple_match (CHR ''|'') domain r u p rest"
      using iff by simp
    ultimately show ?thesis by blast
  qed
qed

lemma pattern1_all_sound:
  "(u, p) \<in> set (pattern1_all dmn t) \<Longrightarrow>
   \<exists>pre m rest. t = pre @ m \<and> triple_match (CHR '':'') dmn m u p rest"
proof (induction dmn t rule: pattern1_all.induct)
  case (1 dmn t)
  show ?case
  proof (cases "pattern1_at dmn t")
    case None
    have eq: "pattern1_all dmn t = (case t of [] \<Rightarrow> [] | _ # cs \<Rightarrow> pattern1_all dmn cs)"
      by (subst pattern1_all.simps) (simp only: None option.case)
    show ?thesis
    proof (cases t)
      case Nil
      with eq have "pattern1_all dmn t = []" by simp
      with "1.prems" show ?thesis by simp
    next
      case (Cons c cs)
      with eq have "pattern1_all dmn t = pattern1_all dmn cs"
        by simp
      with "1.prems" have "(u, p) \<in> set (pattern1_all dmn cs)"
        by simp
      then obtain pre m rest where "cs = pre @ m" "triple_match (CHR '':'') dmn m u p rest"
        using "1.IH"(1) [OF None Cons] by blast
      then have "t = (c # pre) @ m \<and> triple_match (CHR '':'') dmn m u p rest"
        using Cons by simp
      then show ?thesis by blast
    qed
  next
    case (Some x)
    obtain u' p' rest where x: "x = ((u', p'), rest)"
      by (metis prod.exhaust)
    have tm: "triple_match (CHR '':'') dmn t u' p' rest"
      using Some x pattern1_at_iff by simp
    have "pattern1_all dmn t = (u', p') # pattern1_all dmn rest"
      by (subst pattern1_all.simps) (simp only: Some x option.case prod.case)
    with "1.prems" consider "(u, p) = (u', p')" | "(u, p) \<in> set (pattern1_all dmn rest)"
      by auto
    then show ?thesis
    proof cases
      case 1
      then have "t = [] @ t \<and> triple_match (CHR '':'') dmn t u p rest"
        using tm by simp
      then show ?thesis by blast
    next
      case 2
      then obtain pre m rest' where r: "rest = pre @ m" "triple_match (CHR '':'') dmn m u p rest'"
        using "1.IH"(2) [OF Some x [symmetric]] x by blast
      obtain m0 where "t = m0 @ rest"
        using triple_match_consumed [OF tm] by blast
      with r have "t = (m0 @ pre) @ m \<and> triple_match (CHR '':'') dmn m u p rest'"
        by simp
      then show ?thesis by blast
    qed
  qed
qed

lemma pattern2_all_sound:
  "(u, p) \<in> set (pattern2_all dmn t) \<Longrightarrow>
   \<exists>pre proto m rest. t = pre @ proto @ m
     \<and> (proto = [] \<or> ci_equal proto ''http://'' \<or> ci_equal proto ''https://'')
     \<and> triple_match (CHR ''|'') dmn m u p rest"
proof (induction dmn t rule: pattern2_all.induct)
  case (1 dmn t)
  show ?case
  proof (cases "pattern2_at dmn t")
    case None
    have eq: "pattern2_all dmn t = (case t of [] \<Rightarrow> [] | _ # cs \<Rightarrow> pattern2_all dmn cs)"
      by (subst pattern2_all.simps) (simp only: None option.case)
    show ?thesis
    proof (cases t)
      case Nil
      with eq have "pattern2_all dmn t = []" by simp
      with "1.prems" show ?thesis by simp
    next
      case (Cons c cs)
      with eq have "pattern2_all dmn t = pattern2_all dmn cs"
        by simp
      with "1.prems" have "(u, p) \<in> set (pattern2_all dmn cs)"
        by simp
      then obtain pre proto m rest where "cs = pre @ proto @ m"
        "proto = [] \<or> ci_equal proto ''http://'' \<or> ci_equal proto ''https://''"
        "triple_match (CHR ''|'') dmn m u p rest"
        using "1.IH"(1) [OF None Cons] by blast
      then have "t = (c # pre) @ proto @ m
          \<and> (proto = [] \<or> ci_equal proto ''http://'' \<or> ci_equal proto ''https://'')
          \<and> triple_match (CHR ''|'') dmn m u p rest"
        using Cons by simp
      then show ?thesis by blast
    qed
  next
    case (Some x)
    obtain u' p' rest where x: "x = ((u', p'), rest)"
      by (metis prod.exhaust)
    obtain proto0 m0 where tm: "t = proto0 @ m0"
      "proto0 = [] \<or> ci_equal proto0 ''http://'' \<or> ci_equal proto0 ''https://''"
      "triple_match (CHR ''|'') dmn m0 u' p' rest"
      using Some x pattern2_at_sound by blast
    have "pattern2_all dmn t = (u', p') # pattern2_all dmn rest"
      by (subst pattern2_all.simps) (simp only: Some x option.case prod.case)
    with "1.prems" consider "(u, p) = (u', p')" | "(u, p) \<in> set (pattern2_all dmn rest)"
      by auto
    then show ?thesis
    proof cases
      case 1
      then have "t = [] @ proto0 @ m0
          \<and> (proto0 = [] \<or> ci_equal proto0 ''http://'' \<or> ci_equal proto0 ''https://'')
          \<and> triple_match (CHR ''|'') dmn m0 u p rest"
        using tm by simp
      then show ?thesis by blast
    next
      case 2
      then obtain pre proto m rest' where r: "rest = pre @ proto @ m"
        "proto = [] \<or> ci_equal proto ''http://'' \<or> ci_equal proto ''https://''"
        "triple_match (CHR ''|'') dmn m u p rest'"
        using "1.IH"(2) [OF Some x [symmetric]] x by blast
      obtain m1 where "m0 = m1 @ rest"
        using triple_match_consumed [OF tm(3)] by blast
      with r(1) tm(1) have "t = (proto0 @ m1 @ pre) @ proto @ m"
        by simp
      with r(2,3) show ?thesis by blast
    qed
  qed
qed

lemma triple_match_good: "triple_match d dmn s u p rest \<Longrightarrow> good_capture (u, p)"
  unfolding triple_match_def good_capture_def by (auto simp: list_all_iff)

lemma pattern1_all_good:
  assumes "m \<in> set (pattern1_all dmn t)"
  shows "good_capture m"
proof -
  obtain u p where m: "m = (u, p)" by (cases m)
  with assms obtain pre x rest where "triple_match (CHR '':'') dmn x u p rest"
    using pattern1_all_sound [of u p dmn t] by blast
  then show ?thesis
    unfolding m by (rule triple_match_good)
qed

lemma pattern2_all_good:
  assumes "m \<in> set (pattern2_all dmn t)"
  shows "good_capture m"
proof -
  obtain u p where m: "m = (u, p)" by (cases m)
  with assms obtain pre proto x rest where "triple_match (CHR ''|'') dmn x u p rest"
    using pattern2_all_sound [of u p dmn t] by blast
  then show ?thesis
    unfolding m by (rule triple_match_good)
qed

lemma trim_word: "\<forall>x\<in>set w. \<not> isSpace x \<Longrightarrow> trim w = w"
  by (cases w) (simp_all add: trim_def trimEnd_word)

lemma add_match_good:
  "good_capture m \<Longrightarrow> add_match cs m = set_add cs (fst m @ '':'' @ snd m)"
  by (simp add: add_match_def good_capture_def trim_word Let_def)

lemma set_set_add: "set (set_add cs x) = insert x (set cs)"
  by (auto simp: set_add_def)

lemma distinct_set_add: "distinct cs \<Longrightarrow> distinct (set_add cs x)"
  by (simp add: set_add_def)

lemma foldl_add_match:
  "\<forall>m\<in>set ms. good_capture m \<Longrightarrow>
   set (foldl add_match cs ms) = set cs \<union> (\<lambda>m. fst m @ '':'' @ snd m) ` set ms
   \<and> (distinct cs \<longrightarrow> distinct (foldl add_match cs ms))"
proof (induction ms arbitrary: cs)
  case Nil
  then show ?case by simp
next
  case (Cons m ms)
  then have "add_match cs m = set_add cs (fst m @ '':'' @ snd m)"
    by (simp add: add_match_good)
  then show ?case
    using Cons.IH [of "set_add cs (fst m @ '':'' @ snd m)"] Cons.prems
    by (auto simp: set_set_add distinct_set_add)
qed

lemma extractCredentials_set:
  "set (extractCredentials t dmn) =
     (\<lambda>m. fst m @ '':'' @ snd m) ` (set (pattern1_all dmn t) \<union> set (pattern2_all dmn t))"
  and extractCredentials_distinct: "distinct (extractCredentials t dmn)"
proof -
  have 1: "\<forall>m\<in>set (pattern1_all dmn t). good_capture m"
    using pattern1_all_good by blast
  have 2: "\<forall>m\<in>set (pattern2_all dmn t). good_capture m"
    using pattern2_all_good by blast
  show "set (extractCredentials t dmn) =
     (\<lambda>m. fst m @ '':'' @ snd m) ` (set (pattern1_all dmn t) \<union> set (pattern2_all dmn t))"
    using foldl_add_match [OF 1, of "[]"]
      foldl_add_match [OF 2, of "foldl add_match [] (pattern1_all dmn t)"]
    by (auto simp: extractCredentials_def Let_def)
  show "distinct (extractCredentials t dmn)"
    using foldl_add_match [OF 1, of "[]"]
      foldl_add_match [OF 2, of "foldl add_match [] (pattern1_all dmn t)"]
    by (simp add: extractCredentials_def Let_def)
qed

lemma extractCredentials_no_space:
  assumes "c \<in> set (extractCredentials t dmn)"
  shows "\<forall>x\<in>set c. \<not> isSpace x"
proof -
  from assms obtain m where m: "c = fst m @ '':'' @ snd m"
    "m \<in> set (pattern1_all dmn t) \<union> set (pattern2_all dmn t)"
    unfolding extractCredentials_set by blast
  then have "good_capture m"
    using pattern1_all_good pattern2_all_good by blast
  moreover have "\<not> isSpace (CHR '':'')" by (simp add: isSpace_def)
  ultimately show ?thesis
    using m(1) by (auto simp: good_capture_def)
qed
























section \<open>Properties of the combolist batch\<close>

lemma set_foldl_set_add: "set (foldl set_add cs xs) = set cs \<union> set xs"
  by (induction xs arbitrary: cs) (auto simp: set_set_add)

lemma distinct_foldl_set_add: "distinct cs \<Longrightarrow> distinct (foldl set_add cs xs)"
  by (induction xs arbitrary: cs) (auto simp: distinct_set_add)

lemma creds_of_Nil: "creds_of dmn [] = {}"
  by (simp add: creds_of_def)

lemma creds_of_Cons_Inr:
  "creds_of dmn (Inr content # res) = set (extractCredentials content dmn) \<union> creds_of dmn res"
  by (auto simp: creds_of_def)

lemma creds_of_Cons_Inl: "creds_of dmn (Inl message # res) = creds_of dmn res"
  by (auto simp: creds_of_def)

lemma loop_Inr:
  assumes "getFilePreview (world st) (storageid record) (bucket record) = (Inr content, w)"
  shows "combolist_loop getFilePreview dmn (record # rest) st =
    combolist_loop getFilePreview dmn rest
      (st\<lparr>processed := processed st + 1, fetched := fetched st @ [recordKey record], world := w,
          allCredentials := foldl set_add (allCredentials st) (extractCredentials content dmn)\<rparr>)"
  using assms by (simp add: Let_def recordKey_def)

lemma loop_Inl_skip:
  assumes "getFilePreview (world st) (storageid record) (bucket record) = (Inl message, w)"
    and "\<not> isQuotaError message"
  shows "combolist_loop getFilePreview dmn (record # rest) st =
    combolist_loop getFilePreview dmn rest
      (st\<lparr>processed := processed st + 1, fetched := fetched st @ [recordKey record], world := w,
          errors := errors st + 1\<rparr>)"
  using assms by (simp add: Let_def recordKey_def)

lemma loop_Inl_stop:
  assumes "getFilePreview (world st) (storageid record) (bucket record) = (Inl message, w)"
    and "isQuotaError message"
  shows "combolist_loop getFilePreview dmn (record # rest) st =
      st\<lparr>processed := processed st + 1, fetched := fetched st @ [recordKey record], world := w,
          errors := errors st + 1, apiExhausted := True, stoppedAfter := Some (processed st)\<rparr>"
  using assms by (simp add: Let_def recordKey_def)

lemma loop_no_quota:
  assumes "list_all (\<lambda>x. \<not> is_quota x) (fetch_all fetch (world st) rs)"
  shows "loop_result st (combolist_loop fetch dmn rs st) dmn rs (fetch_all fetch (world st) rs)
    \<and> apiExhausted (combolist_loop fetch dmn rs st) = apiExhausted st
    \<and> stoppedAfter (combolist_loop fetch dmn rs st) = stoppedAfter st"
  using assms
proof (induction rs arbitrary: st)
  case Nil
  then show ?case by (simp add: loop_result_def creds_of_Nil)
next
  case (Cons r rs)
  obtain x w where f: "fetch (world st) (storageid r) (bucket r) = (x, w)"
    by (cases "fetch (world st) (storageid r) (bucket r)")
  then have fa: "fetch_all fetch (world st) (r # rs) = x # fetch_all fetch w rs"
    by simp
  with Cons.prems have nq: "\<not> is_quota x" and rest: "list_all (\<lambda>x. \<not> is_quota x) (fetch_all fetch w rs)"
    by simp_all
  show ?case
  proof (cases x)
    case (Inr content)
    define st1 where "st1 = st\<lparr>processed := processed st + 1,
      fetched := fetched st @ [recordKey r], world := w,
      allCredentials := foldl set_add (allCredentials st) (extractCredentials content dmn)\<rparr>"
    have step: "combolist_loop fetch dmn (r # rs) st = combolist_loop fetch dmn rs st1"
      unfolding st1_def using f Inr by (simp add: Let_def recordKey_def)
    have w1: "world st1 = w" by (simp add: st1_def)
    have ih: "loop_result st1 (combolist_loop fetch dmn rs st1) dmn rs (fetch_all fetch w rs)
      \<and> apiExhausted (combolist_loop fetch dmn rs st1) = apiExhausted st1
      \<and> stoppedAfter (combolist_loop fetch dmn rs st1) = stoppedAfter st1"
      using Cons.IH [of st1] rest w1 by simp
    then show ?thesis
      unfolding step fa Inr loop_result_def
      by (auto simp: st1_def set_foldl_set_add creds_of_Cons_Inr)
  next
    case (Inl message)
    with nq have nqe: "\<not> isQuotaError message" by (simp add: is_quota_def)
    define st1 where "st1 = st\<lparr>processed := processed st + 1,
      fetched := fetched st @ [recordKey r], world := w, errors := errors st + 1\<rparr>"
    have step: "combolist_loop fetch dmn (r # rs) st = combolist_loop fetch dmn rs st1"
      unfolding st1_def using f Inl nqe by (simp add: Let_def recordKey_def)
    have w1: "world st1 = w" by (simp add: st1_def)
    have ih: "loop_result st1 (combolist_loop fetch dmn rs st1) dmn rs (fetch_all fetch w rs)
      \<and> apiExhausted (combolist_loop fetch dmn rs st1) = apiExhausted st1
      \<and> stoppedAfter (combolist_loop fetch dmn rs st1) = stoppedAfter st1"
      using Cons.IH [of st1] rest w1 by simp
    then show ?thesis
      unfolding step fa Inl loop_result_def
      by (auto simp: st1_def creds_of_Cons_Inl)
  qed
qed

lemma loop_quota:
  assumes "fetch_all fetch (world st) (pre @ [r]) = res @ [Inl message]"
    and "isQuotaError message"
    and "list_all (\<lambda>x. \<not> is_quota x) res"
  shows "loop_result st (combolist_loop fetch dmn (pre @ r # post) st) dmn (pre @ [r]) (res @ [Inl message])
    \<and> apiExhausted (combolist_loop fetch dmn (pre @ r # post) st)
    \<and> stoppedAfter (combolist_loop fetch dmn (pre @ r # post) st) = Some (processed st + int (length pre))"
  using assms
proof (induction pre arbitrary: st res)
  case Nil
  obtain x w where f: "fetch (world st) (storageid r) (bucket r) = (x, w)"
    by (cases "fetch (world st) (storageid r) (bucket r)")
  with Nil.prems(1) have "res = []" "x = Inl message"
    by (cases res; simp)+
  then have step: "combolist_loop fetch dmn ([] @ r # post) st =
      st\<lparr>processed := processed st + 1, fetched := fetched st @ [recordKey r], world := w,
          errors := errors st + 1, apiExhausted := True, stoppedAfter := Some (processed st)\<rparr>"
    using f Nil.prems(2) by (simp add: Let_def recordKey_def)
  show ?case
    unfolding step \<open>res = []\<close> loop_result_def
    by (simp add: creds_of_Cons_Inl creds_of_Nil)
next
  case (Cons a pre)
  obtain x w where f: "fetch (world st) (storageid a) (bucket a) = (x, w)"
    by (cases "fetch (world st) (storageid a) (bucket a)")
  then have fa: "fetch_all fetch (world st) ((a # pre) @ [r]) = x # fetch_all fetch w (pre @ [r])"
    by simp
  have "fetch_all fetch w (pre @ [r]) \<noteq> []"
    by (cases pre) (auto split: prod.splits)
  with fa Cons.prems(1) obtain res' where res: "res = x # res'"
    and fa': "fetch_all fetch w (pre @ [r]) = res' @ [Inl message]"
    by (cases res) auto
  with Cons.prems(3) have nq: "\<not> is_quota x" and rest: "list_all (\<lambda>x. \<not> is_quota x) res'"
    by simp_all
  show ?case
  proof (cases x)
    case (Inr content)
    define st1 where "st1 = st\<lparr>processed := processed st + 1,
      fetched := fetched st @ [recordKey a], world := w,
      allCredentials := foldl set_add (allCredentials st) (extractCredentials content dmn)\<rparr>"
    have step: "combolist_loop fetch dmn ((a # pre) @ r # post) st =
        combolist_loop fetch dmn (pre @ r # post) st1"
      unfolding st1_def using f Inr by (simp add: Let_def recordKey_def)
    have w1: "world st1 = w" by (simp add: st1_def)
    have ih: "loop_result st1 (combolist_loop fetch dmn (pre @ r # post) st1) dmn (pre @ [r]) (res' @ [Inl message])
      \<and> apiExhausted (combolist_loop fetch dmn (pre @ r # post) st1)
      \<and> stoppedAfter (combolist_loop fetch dmn (pre @ r # post) st1) = Some (processed st1 + int (length pre))"
      using Cons.IH [of st1 res'] fa' Cons.prems(2) rest w1 by simp
    then show ?thesis
      unfolding step res Inr loop_result_def
      by (auto simp: st1_def set_foldl_set_add creds_of_Cons_Inr)
  next
    case (Inl m)
    with nq have nqe: "\<not> isQuotaError m" by (simp add: is_quota_def)
    define st1 where "st1 = st\<lparr>processed := processed st + 1,
      fetched := fetched st @ [recordKey a], world := w, errors := errors st + 1\<rparr>"
    have step: "combolist_loop fetch dmn ((a # pre) @ r # post) st =
        combolist_loop fetch dmn (pre @ r # post) st1"
      unfolding st1_def using f Inl nqe by (simp add: Let_def recordKey_def)
    have w1: "world st1 = w" by (simp add: st1_def)
    have ih: "loop_result st1 (combolist_loop fetch dmn (pre @ r # post) st1) dmn (pre @ [r]) (res' @ [Inl message])
      \<and> apiExhausted (combolist_loop fetch dmn (pre @ r # post) st1)
      \<and> stoppedAfter (combolist_loop fetch dmn (pre @ r # post) st1) = Some (processed st1 + int (length pre))"
      using Cons.IH [of st1 res'] fa' Cons.prems(2) rest w1 by simp
    then show ?thesis
      unfolding step res Inl loop_result_def
      by (auto simp: st1_def creds_of_Cons_Inl)
  qed
qed

lemma loop_creds_inv:
  assumes "distinct (allCredentials st)"
    and "\<forall>c\<in>set (allCredentials st). \<forall>x\<in>set c. \<not> isSpace x"
  shows "distinct (allCredentials (combolist_loop fetch dmn rs st))
    \<and> (\<forall>c\<in>set (allCredentials (combolist_loop fetch dmn rs st)). \<forall>x\<in>set c. \<not> isSpace x)"
  using assms
proof (induction rs arbitrary: st)
  case Nil
  then show ?case by simp
next
  case (Cons r rs)
  obtain x w where f: "fetch (world st) (storageid r) (bucket r) = (x, w)"
    by (cases "fetch (world st) (storageid r) (bucket r)")
  show ?case
  proof (cases x)
    case (Inr content)
    define st1 where "st1 = st\<lparr>processed := processed st + 1,
      fetched := fetched st @ [recordKey r], world := w,
      allCredentials := foldl set_add (allCredentials st) (extractCredentials content dmn)\<rparr>"
    have step: "combolist_loop fetch dmn (r # rs) st = combolist_loop fetch dmn rs st1"
      unfolding st1_def using f Inr by (simp add: Let_def recordKey_def)
    have "distinct (allCredentials st1)"
      using Cons.prems(1) by (simp add: st1_def distinct_foldl_set_add)
    moreover have "\<forall>c\<in>set (allCredentials st1). \<forall>x\<in>set c. \<not> isSpace x"
      using Cons.prems(2) extractCredentials_no_space [of _ content dmn]
      by (auto simp: st1_def set_foldl_set_add)
    ultimately show ?thesis
      unfolding step by (rule Cons.IH)
  next
    case (Inl m)
    show ?thesis
    proof (cases "isQuotaError m")
      case True
      then show ?thesis
        using f Inl Cons.prems by (simp add: Let_def recordKey_def)
    next
      case False
      define st1 where "st1 = st\<lparr>processed := processed st + 1,
        fetched := fetched st @ [recordKey r], world := w, errors := errors st + 1\<rparr>"
      have step: "combolist_loop fetch dmn (r # rs) st = combolist_loop fetch dmn rs st1"
        unfolding st1_def using f Inl False by (simp add: Let_def recordKey_def)
      have "distinct (allCredentials st1)"
        "\<forall>c\<in>set (allCredentials st1). \<forall>x\<in>set c. \<not> isSpace x"
        using Cons.prems by (simp_all add: st1_def)
      then show ?thesis
        unfolding step by (rule Cons.IH)
    qed
  qed
qed

lemma join_lines: "xs \<noteq> [] \<Longrightarrow> join sep xs @ sep = concat (map (\<lambda>c. c @ sep) xs)"
  by (induction sep xs rule: join.induct) simp_all

lemma split_on_lines:
  "\<forall>c\<in>set creds. CHR 0x0A \<notin> set c \<Longrightarrow>
   split_on (CHR 0x0A) (concat (map (\<lambda>c. c @ [CHR 0x0A]) creds)) = creds @ [[]]"
proof (induction creds)
  case Nil
  then show ?case by (simp add: split_on_Nil)
next
  case (Cons c cs)
  let ?rest = "concat (map (\<lambda>c. c @ [CHR 0x0A]) cs)"
  from Cons.prems have c: "\<forall>x\<in>set c. x \<noteq> CHR 0x0A" by auto
  then have dw: "dropWhile (\<lambda>x. x \<noteq> CHR 0x0A) (c @ CHR 0x0A # ?rest) = CHR 0x0A # ?rest"
    and tw: "takeWhile (\<lambda>x. x \<noteq> CHR 0x0A) (c @ CHR 0x0A # ?rest) = c"
    by (simp_all add: dropWhile_append3 takeWhile_tail)
  have "split_on (CHR 0x0A) (c @ CHR 0x0A # ?rest) = c # split_on (CHR 0x0A) ?rest"
    by (subst split_on.simps) (simp only: dw tw list.case)
  with Cons show ?case by simp
qed

lemma generateCombolist_ran:
  assumes "generateCombolist limits fetch w0 searchTerm records limit = (outcome, st)"
    and "outcome \<noteq> NoCredits"
  shows "st = combolist_loop fetch (domainPart searchTerm)
           (case limit of None \<Rightarrow> records | Some l \<Rightarrow> if l = 0 then records else slice records 0 l)
           (batch_start (snd (limits w0)))
    \<and> (if allCredentials st = [] then outcome = NothingFound
        else outcome = Written (domainPart searchTerm @ ''.txt'')
               (concat (map (\<lambda>c. c @ [CHR 0x0A]) (sort (allCredentials st)))))"
proof -
  obtain l w1 where l: "limits w0 = (l, w1)" by (cases "limits w0")
  define rs where "rs = (case limit of None \<Rightarrow> records
    | Some l \<Rightarrow> if l = 0 then records else slice records 0 l)"
  define st' where "st' = combolist_loop fetch (domainPart searchTerm) rs (batch_start w1)"
  have e: "(sort (allCredentials st') = []) = (allCredentials st' = [])"
    by (metis length_0_conv length_sort)
  from assms have "(outcome, st) =
      (if length (sort (allCredentials st')) = 0 then (NothingFound, st')
       else (Written (domainPart searchTerm @ ''.txt'')
               (join [CHR 0x0A] (sort (allCredentials st')) @ [CHR 0x0A]), st'))"
    unfolding generateCombolist_def Let_def l rs_def [symmetric] st'_def
    by (auto split: if_splits)
  then have "st = st'" and "if allCredentials st' = [] then outcome = NothingFound
        else outcome = Written (domainPart searchTerm @ ''.txt'')
               (concat (map (\<lambda>c. c @ [CHR 0x0A]) (sort (allCredentials st'))))"
    using e by (auto simp: join_lines split: if_splits)
  then show ?thesis
    by (simp add: st'_def rs_def l)
qed

lemma length_fetch_all: "length (fetch_all fetch w rs) = length rs"
  by (induction rs arbitrary: w) (auto split: prod.splits)

lemma batch_start_fields:
  "fetched (batch_start w) = []" "processed (batch_start w) = 0" "errors (batch_start w) = 0"
  "apiExhausted (batch_start w) = False" "stoppedAfter (batch_start w) = None"
  "allCredentials (batch_start w) = []" "world (batch_start w) = w"
  by (simp_all add: batch_start_def)

text \<open>
  C7: when the fetch of a record fails with a quota-exhaustion signal, the records
  before it having given results that are no such signal, the loop stops there: the
  records fetched are that record and the ones before it and no later one, the count
  reported is the number of records before it, every failure so far is counted (so
  that \<open>processed - errors\<close> is the number of contents fetched), and the credentials
  are those of the contents fetched so far. When no fetch gives the
  signal every record is fetched, each failure is counted and skipped, and the
  credentials are those of all contents fetched. Whenever the run got past the credit
  check and has credentials, stopped early or not, it writes all of them to the file.
\<close>

theorem combolist_loop_quota_stop:
  "(fetch_all fetch w (pre @ [r]) = res @ [Inl message] \<and> isQuotaError message
      \<and> list_all (\<lambda>x. \<not> is_quota x) res \<longrightarrow>
      (let st = combolist_loop fetch dmn (pre @ r # post) (batch_start w)
       in fetched st = map recordKey (pre @ [r])
          \<and> apiExhausted st \<and> stoppedAfter st = Some (int (length pre))
          \<and> processed st = int (length pre) + 1
          \<and> errors st = int (length (filter isl res)) + 1
          \<and> processed st - errors st = int (length (filter (\<lambda>x. \<not> isl x) res))
          \<and> set (allCredentials st) = creds_of dmn res))
   \<and> (list_all (\<lambda>x. \<not> is_quota x) (fetch_all fetch w rs) \<longrightarrow>
      (let st = combolist_loop fetch dmn rs (batch_start w)
       in fetched st = map recordKey rs
          \<and> \<not> apiExhausted st \<and> stoppedAfter st = None
          \<and> processed st = int (length rs)
          \<and> errors st = int (length (filter isl (fetch_all fetch w rs)))
          \<and> processed st - errors st = int (length (filter (\<lambda>x. \<not> isl x) (fetch_all fetch w rs)))
          \<and> set (allCredentials st) = creds_of dmn (fetch_all fetch w rs)))
   \<and> (generateCombolist limits fetch w0 searchTerm records limit = (outcome, st')
       \<and> outcome \<noteq> NoCredits \<and> allCredentials st' \<noteq> [] \<longrightarrow>
         st' = combolist_loop fetch (domainPart searchTerm)
                 (case limit of None \<Rightarrow> records
                  | Some l \<Rightarrow> if l = 0 then records else slice records 0 l)
                 (batch_start (snd (limits w0)))
         \<and> outcome = Written (domainPart searchTerm @ ''.txt'')
                        (concat (map (\<lambda>c. c @ [CHR 0x0A]) (sort (allCredentials st')))))"
proof (intro conjI impI)
  assume a: "fetch_all fetch w (pre @ [r]) = res @ [Inl message] \<and> isQuotaError message
      \<and> list_all (\<lambda>x. \<not> is_quota x) res"
  then have fa: "fetch_all fetch (world (batch_start w)) (pre @ [r]) = res @ [Inl message]"
    by (simp add: batch_start_fields)
  have "length (filter isl (res @ [Inl message])) = length (filter isl res) + 1"
    by simp
  moreover have "creds_of dmn (res @ [Inl message]) = creds_of dmn res"
    by (auto simp: creds_of_def)
  moreover have "length res = length pre"
    using arg_cong [OF fa, of length] by (simp add: length_fetch_all)
  then have "int (length pre) - int (length (filter isl res)) =
      int (length (filter (\<lambda>x. \<not> isl x) res))"
    using sum_length_filter_compl [of isl res] by simp
  ultimately show "let st = combolist_loop fetch dmn (pre @ r # post) (batch_start w)
       in fetched st = map recordKey (pre @ [r])
          \<and> apiExhausted st \<and> stoppedAfter st = Some (int (length pre))
          \<and> processed st = int (length pre) + 1
          \<and> errors st = int (length (filter isl res)) + 1
          \<and> processed st - errors st = int (length (filter (\<lambda>x. \<not> isl x) res))
          \<and> set (allCredentials st) = creds_of dmn res"
    using loop_quota [OF fa, of dmn post] a
    unfolding loop_result_def Let_def by (simp add: batch_start_fields)
next
  assume "list_all (\<lambda>x. \<not> is_quota x) (fetch_all fetch w rs)"
  then have "list_all (\<lambda>x. \<not> is_quota x) (fetch_all fetch (world (batch_start w)) rs)"
    by (simp add: batch_start_fields)
  moreover have "int (length rs) - int (length (filter isl (fetch_all fetch w rs))) =
      int (length (filter (\<lambda>x. \<not> isl x) (fetch_all fetch w rs)))"
    using sum_length_filter_compl [of isl "fetch_all fetch w rs"]
    by (simp add: length_fetch_all)
  ultimately show "let st = combolist_loop fetch dmn rs (batch_start w)
       in fetched st = map recordKey rs
          \<and> \<not> apiExhausted st \<and> stoppedAfter st = None
          \<and> processed st = int (length rs)
          \<and> errors st = int (length (filter isl (fetch_all fetch w rs)))
          \<and> processed st - errors st = int (length (filter (\<lambda>x. \<not> isl x) (fetch_all fetch w rs)))
          \<and> set (allCredentials st) = creds_of dmn (fetch_all fetch w rs)"
    using loop_no_quota [of fetch "batch_start w" rs dmn]
    unfolding loop_result_def Let_def by (simp add: batch_start_fields)
next
  assume a: "generateCombolist limits fetch w0 searchTerm records limit = (outcome, st')
       \<and> outcome \<noteq> NoCredits \<and> allCredentials st' \<noteq> []"
  then have g: "generateCombolist limits fetch w0 searchTerm records limit = (outcome, st')"
    and n: "outcome \<noteq> NoCredits" and ne: "allCredentials st' \<noteq> []"
    by simp_all
  show "st' = combolist_loop fetch (domainPart searchTerm)
                 (case limit of None \<Rightarrow> records
                  | Some l \<Rightarrow> if l = 0 then records else slice records 0 l)
                 (batch_start (snd (limits w0)))"
    using generateCombolist_ran [OF g n] by simp
  show "outcome = Written (domainPart searchTerm @ ''.txt'')
                        (concat (map (\<lambda>c. c @ [CHR 0x0A]) (sort (allCredentials st'))))"
    using generateCombolist_ran [OF g n] ne by simp
qed

theorem combolist_loop_quota_stop_witness:
  "fetch_all example_getFilePreview 0
      ([\<lparr>storageid = ''a'', bucket = ''k''\<rparr>, \<lparr>storageid = ''b'', bucket = ''k''\<rparr>]
        @ [\<lparr>storageid = ''c'', bucket = ''k''\<rparr>])
     = [Inr ''x.y:u:p'', Inl ''Get file preview failed: 500 Internal Server Error'']
        @ [Inl ''Get file preview failed: 429 Too Many Requests'']
   \<and> isQuotaError ''Get file preview failed: 429 Too Many Requests''
   \<and> fetched (combolist_loop example_getFilePreview ''x.y''
        ([\<lparr>storageid = ''a'', bucket = ''k''\<rparr>, \<lparr>storageid = ''b'', bucket = ''k''\<rparr>]
          @ \<lparr>storageid = ''c'', bucket = ''k''\<rparr> # [\<lparr>storageid = ''a'', bucket = ''k''\<rparr>])
        (batch_start 0))
     = map recordKey ([\<lparr>storageid = ''a'', bucket = ''k''\<rparr>, \<lparr>storageid = ''b'', bucket = ''k''\<rparr>]
        @ [\<lparr>storageid = ''c'', bucket = ''k''\<rparr>])
   \<and> stoppedAfter (combolist_loop example_getFilePreview ''x.y''
        ([\<lparr>storageid = ''a'', bucket = ''k''\<rparr>, \<lparr>storageid = ''b'', bucket = ''k''\<rparr>]
          @ \<lparr>storageid = ''c'', bucket = ''k''\<rparr> # [\<lparr>storageid = ''a'', bucket = ''k''\<rparr>])
        (batch_start 0))
     = Some 2
   \<and> list_all (\<lambda>x. \<not> is_quota x) (fetch_all example_getFilePreview 0
        [\<lparr>storageid = ''b'', bucket = ''k''\<rparr>, \<lparr>storageid = ''a'', bucket = ''k''\<rparr>])
   \<and> fetched (combolist_loop example_getFilePreview ''x.y''
        [\<lparr>storageid = ''b'', bucket = ''k''\<rparr>, \<lparr>storageid = ''a'', bucket = ''k''\<rparr>] (batch_start 0))
     = map recordKey [\<lparr>storageid = ''b'', bucket = ''k''\<rparr>, \<lparr>storageid = ''a'', bucket = ''k''\<rparr>]
   \<and> generateCombolist (\<lambda>w. (Inl ''offline'', w)) example_getFilePreview 0 ''http://x.y/z''
        [\<lparr>storageid = ''a'', bucket = ''k''\<rparr>, \<lparr>storageid = ''c'', bucket = ''k''\<rparr>] None
     = (Written ''x.y.txt'' ''u:p\<newline>'',
        \<lparr>allCredentials = [''u:p''], processed = 2, errors = 1, apiExhausted = True,
         stoppedAfter = Some 1, fetched = [(''a'', ''k''), (''c'', ''k'')], world = 2\<rparr>)"
proof -
  let ?a = "\<lparr>storageid = ''a'', bucket = ''k''\<rparr>"
  let ?b = "\<lparr>storageid = ''b'', bucket = ''k''\<rparr>"
  let ?c = "\<lparr>storageid = ''c'', bucket = ''k''\<rparr>"
  let ?st = "\<lparr>allCredentials = [''u:p''], processed = 2, errors = 1, apiExhausted = True,
         stoppedAfter = Some 1, fetched = [(''a'', ''k''), (''c'', ''k'')], world = 2::nat\<rparr>"
  have h1: "fetch_all example_getFilePreview 0 ([?a, ?b] @ [?c])
     = [Inr ''x.y:u:p'', Inl ''Get file preview failed: 500 Internal Server Error'']
        @ [Inl ''Get file preview failed: 429 Too Many Requests'']"
    by code_simp
  have h2: "isQuotaError ''Get file preview failed: 429 Too Many Requests''"
    by code_simp
  have h3: "list_all (\<lambda>x. \<not> is_quota x)
      [Inr ''x.y:u:p'', Inl ''Get file preview failed: 500 Internal Server Error'']"
    by code_simp
  have h4: "list_all (\<lambda>x. \<not> is_quota x) (fetch_all example_getFilePreview 0 [?b, ?a])"
    by code_simp
  have h5: "generateCombolist (\<lambda>w. (Inl ''offline'', w)) example_getFilePreview 0 ''http://x.y/z''
        [?a, ?c] None = (Written ''x.y.txt'' ''u:p\<newline>'', ?st)"
    by code_simp
  note t1 = combolist_loop_quota_stop [of example_getFilePreview 0 "[?a, ?b]" ?c
      "[Inr ''x.y:u:p'', Inl ''Get file preview failed: 500 Internal Server Error'']"
      "''Get file preview failed: 429 Too Many Requests''" "''x.y''" "[?a]" "[?b, ?a]",
      unfolded Let_def]
  have a: "fetched (combolist_loop example_getFilePreview ''x.y'' ([?a, ?b] @ ?c # [?a]) (batch_start 0))
      = map recordKey ([?a, ?b] @ [?c])"
    and b: "stoppedAfter (combolist_loop example_getFilePreview ''x.y'' ([?a, ?b] @ ?c # [?a]) (batch_start 0))
      = Some (int (length [?a, ?b]))"
    using t1 [THEN conjunct1] h1 h2 h3 by blast+
  have c: "fetched (combolist_loop example_getFilePreview ''x.y'' [?b, ?a] (batch_start 0))
      = map recordKey [?b, ?a]"
    using t1 [THEN conjunct2, THEN conjunct1] h4 by blast
  show ?thesis
    using h1 h2 a b c h4 h5 by simp
qed

text \<open>
  C2: a credential that both patterns match, or that one matches twice, is in the
  result of the extractor once. The content the batch writes is the credentials of
  its set, each once, in the lexicographic order of their code units, each followed
  by a line break: split at line breaks, the content gives the sorted credentials and
  the empty piece after the last line break.
\<close>

theorem combolist_file_sorted_distinct:
  "distinct (extractCredentials t dmn)
   \<and> extractCredentials ''x.y:a:b x.y|a|b x.y:a:b'' ''x.y'' = [''a:b'']
   \<and> (generateCombolist limits fetch w searchTerm records limit = (Written name content, st) \<longrightarrow>
        (let creds = sort (allCredentials st)
         in content = concat (map (\<lambda>c. c @ [CHR 0x0A]) creds)
            \<and> split_on (CHR 0x0A) content = creds @ [[]]
            \<and> sorted creds \<and> distinct creds \<and> creds \<noteq> []
            \<and> set creds = set (allCredentials st) \<and> distinct (allCredentials st)))
   \<and> ((a :: string) < b \<longleftrightarrow> (a, b) \<in> lexord {(x, y). of_char x < (of_char y :: nat)})"
proof (intro conjI impI)
  show "distinct (extractCredentials t dmn)"
    by (rule extractCredentials_distinct)
  show "extractCredentials ''x.y:a:b x.y|a|b x.y:a:b'' ''x.y'' = [''a:b'']"
    by code_simp
  show "(a < b) = ((a, b) \<in> lexord {(x, y). of_char x < (of_char y :: nat)})"
    by (simp add: list_less_def less_char_def)
next
  assume g: "generateCombolist limits fetch w searchTerm records limit = (Written name content, st)"
  define rs where "rs = (case limit of None \<Rightarrow> records
    | Some l \<Rightarrow> if l = 0 then records else slice records 0 l)"
  have ran: "st = combolist_loop fetch (domainPart searchTerm) rs (batch_start (snd (limits w)))"
    "if allCredentials st = [] then Written name content = NothingFound
     else Written name content = Written (domainPart searchTerm @ ''.txt'')
               (concat (map (\<lambda>c. c @ [CHR 0x0A]) (sort (allCredentials st))))"
    using generateCombolist_ran [OF g] by (simp_all add: rs_def)
  then have ne: "allCredentials st \<noteq> []"
    and content: "content = concat (map (\<lambda>c. c @ [CHR 0x0A]) (sort (allCredentials st)))"
    by (auto split: if_splits)
  have inv: "distinct (allCredentials st)"
    "\<forall>c\<in>set (allCredentials st). \<forall>x\<in>set c. \<not> isSpace x"
    using loop_creds_inv [of "batch_start (snd (limits w))" fetch "domainPart searchTerm" rs]
    unfolding ran(1) by (simp_all add: batch_start_fields)
  have nl: "isSpace (CHR 0x0A)" by (simp add: isSpace_def)
  have "\<forall>c\<in>set (sort (allCredentials st)). CHR 0x0A \<notin> set c"
    using inv(2) nl by auto
  then have lines: "split_on (CHR 0x0A) content = sort (allCredentials st) @ [[]]"
    unfolding content by (rule split_on_lines)
  have "sort (allCredentials st) \<noteq> []"
    using ne by (metis length_0_conv length_sort)
  then show "let creds = sort (allCredentials st)
         in content = concat (map (\<lambda>c. c @ [CHR 0x0A]) creds)
            \<and> split_on (CHR 0x0A) content = creds @ [[]]
            \<and> sorted creds \<and> distinct creds \<and> creds \<noteq> []
            \<and> set creds = set (allCredentials st) \<and> distinct (allCredentials st)"
    using content lines inv(1) by (simp add: Let_def)
qed

theorem combolist_file_sorted_distinct_witness:
  "generateCombolist (\<lambda>w. (Inr None, w))
      (\<lambda>w sid b. (Inr ''x.y:b:2 x.y|a|1 x.y:b:2'', w)) (0::nat) ''x.y''
      [\<lparr>storageid = ''a'', bucket = ''k''\<rparr>, \<lparr>storageid = ''b'', bucket = ''k''\<rparr>] None
     = (Written ''x.y.txt'' ''a:1\<newline>b:2\<newline>'',
        \<lparr>allCredentials = [''b:2'', ''a:1''], processed = 2, errors = 0, apiExhausted = False,
         stoppedAfter = None, fetched = [(''a'', ''k''), (''b'', ''k'')], world = 0\<rparr>)
   \<and> split_on (CHR 0x0A) ''a:1\<newline>b:2\<newline>'' = sort [''b:2'', ''a:1''] @ [[]]
   \<and> sorted (sort [''b:2'', ''a:1'']) \<and> distinct (sort [''b:2'', ''a:1''])"
proof -
  let ?st = "\<lparr>allCredentials = [''b:2'', ''a:1''], processed = 2, errors = 0, apiExhausted = False,
         stoppedAfter = None, fetched = [(''a'', ''k''), (''b'', ''k'')], world = 0::nat\<rparr>"
  have h: "generateCombolist (\<lambda>w. (Inr None, w))
      (\<lambda>w sid b. (Inr ''x.y:b:2 x.y|a|1 x.y:b:2'', w)) (0::nat) ''x.y''
      [\<lparr>storageid = ''a'', bucket = ''k''\<rparr>, \<lparr>storageid = ''b'', bucket = ''k''\<rparr>] None
     = (Written ''x.y.txt'' ''a:1\<newline>b:2\<newline>'', ?st)"
    by code_simp
  have "split_on (CHR 0x0A) ''a:1\<newline>b:2\<newline>'' = sort (allCredentials ?st) @ [[]]
      \<and> sorted (sort (allCredentials ?st)) \<and> distinct (sort (allCredentials ?st))"
    using combolist_file_sorted_distinct [THEN conjunct2, THEN conjunct2, THEN conjunct1,
        rule_format, OF h, unfolded Let_def]
    by blast
  with h show ?thesis by simp
qed


end
